theory Spec2Isabelle
  imports Complex_Main "HOL-Library.AList" "HOL-Library.Multiset" "HOL-Library.Char_ord"
    "HOL-Library.List_Lexorder" "HOL-Library.Product_Lexorder"
begin

section \<open>Python strings and integers, as the sources use them\<close>

text \<open>
  A Python \<open>str\<close> is modelled as a \<open>string\<close> whose characters are the code points
  0..255 (Latin-1); the character classes below are Python's on that range.
  Python integers are unbounded: \<open>int\<close>.
\<close>

datatype py_error = ValueError | IndexError | KeyError | ZeroDivisionError

definition code :: "char \<Rightarrow> nat" where
  "code c = of_char c"

definition py_isspace :: "char \<Rightarrow> bool" where
  \<comment> \<open>\<open>str.isspace\<close>, the set \<open>str.strip()\<close> removes and \<open>\s\<close> of \<open>re\<close>:
      TAB..CR, FS..US, space, NEL, NBSP\<close>
  "py_isspace c = (let n = code c in
     (9 \<le> n \<and> n \<le> 13) \<or> (28 \<le> n \<and> n \<le> 32) \<or> n = 133 \<or> n = 160)"

definition re_digit :: "char \<Rightarrow> bool" where
  \<comment> \<open>\<open>\d\<close> of \<open>re\<close> and the decimal digits \<open>int()\<close> reads\<close>
  "re_digit c = (let n = code c in 48 \<le> n \<and> n \<le> 57)"

definition py_strip :: "string \<Rightarrow> string" where
  \<comment> \<open>\<open>s.strip()\<close>\<close>
  "py_strip s = rev (dropWhile py_isspace (rev (dropWhile py_isspace s)))"

definition py_lower_char :: "char \<Rightarrow> char" where
  \<comment> \<open>\<open>str.lower\<close> on one character: A..Z and the Latin-1 capitals move up by 32\<close>
  "py_lower_char c = (let n = code c in
     if (65 \<le> n \<and> n \<le> 90) \<or> (192 \<le> n \<and> n \<le> 222 \<and> n \<noteq> 215)
     then char_of (n + 32) else c)"

definition py_lower :: "string \<Rightarrow> string" where
  "py_lower s = map py_lower_char s"










section \<open>Topic index builder (\<open>extract_toc.build_topic_map\<close>)\<close>

text \<open>
  A dict keeps its keys in insertion order, and assigning to a key that is present keeps
  the key's place: an association list under \<open>AList.update\<close>. A value is the list
  \<open>[start, end]\<close>, \<open>end\<close> being \<open>None\<close> or a page.
\<close>

type_synonym topic_map = "(string \<times> (int \<times> int option)) list"

definition next_page :: "(string \<times> int) list \<Rightarrow> nat \<Rightarrow> int option" where
  \<comment> \<open>\<open>nxt = entries[idx + 1][1] if idx + 1 < len(entries) else None\<close>\<close>
  "next_page entries idx =
     (if idx + 1 < length entries then Some (snd (entries ! (idx + 1))) else None)"

definition range_end :: "int option \<Rightarrow> int \<Rightarrow> int option" where
  \<comment> \<open>\<open>end = (nxt) if (nxt and nxt >= start) else None\<close>: the page 0 is falsy\<close>
  "range_end nxt start =
     (case nxt of
        None \<Rightarrow> None
      | Some n \<Rightarrow> if n \<noteq> 0 \<and> n \<ge> start then Some n else None)"

function build_loop :: "(string \<times> int) list \<Rightarrow> nat \<Rightarrow> topic_map \<Rightarrow> topic_map" where
  \<comment> \<open>the \<open>for idx, (title, start) in enumerate(entries)\<close> loop, from index \<open>idx\<close> on\<close>
  "build_loop entries idx topic_map =
     (if idx < length entries then
        (let (title, start) = entries ! idx;
             nxt = next_page entries idx;
             end = range_end nxt start
         in build_loop entries (idx + 1) (AList.update title (start, end) topic_map))
      else topic_map)"
  by pat_completeness auto
termination
  by (relation "measure (\<lambda>(entries, idx, m). length entries - idx)") auto

declare build_loop.simps [simp del]

definition build_topic_map :: "(string \<times> int) list \<Rightarrow> topic_map" where
  "build_topic_map entries = build_loop entries 0 []"

subsection \<open>What the builder stores\<close>

lemma build_loop_other:
  "\<forall>j. idx \<le> j \<and> j < length entries \<longrightarrow> fst (entries ! j) \<noteq> t
   \<Longrightarrow> map_of (build_loop entries idx m) t = map_of m t"
proof (induction entries idx m rule: build_loop.induct)
  case (1 entries idx m)
  show ?case
  proof (cases "idx < length entries")
    case True
    obtain title start where e: "entries ! idx = (title, start)" by (cases "entries ! idx")
    from 1(2) True e have ne: "title \<noteq> t" by (metis fst_conv le_refl)
    have "map_of (build_loop entries (idx + 1)
            (AList.update title (start, range_end (next_page entries idx) start) m)) t
          = map_of (AList.update title (start, range_end (next_page entries idx) start) m) t"
      using 1(1)[OF True refl e[symmetric] refl refl] 1(2) by simp
    with True e ne show ?thesis
      by (subst build_loop.simps) (simp add: update_conv')
  next
    case False
    then show ?thesis by (subst build_loop.simps) simp
  qed
qed

lemma build_loop_entry:
  "idx \<le> i \<Longrightarrow> i < length entries
   \<Longrightarrow> \<forall>j. i < j \<and> j < length entries \<longrightarrow> fst (entries ! j) \<noteq> fst (entries ! i)
   \<Longrightarrow> map_of (build_loop entries idx m) (fst (entries ! i))
       = Some (snd (entries ! i), range_end (next_page entries i) (snd (entries ! i)))"
proof (induction entries idx m rule: build_loop.induct)
  case (1 entries idx m)
  from 1(2,3) have lt: "idx < length entries" by simp
  obtain title start where e: "entries ! idx = (title, start)" by (cases "entries ! idx")
  let ?m' = "AList.update title (start, range_end (next_page entries idx) start) m"
  have step: "build_loop entries idx m = build_loop entries (idx + 1) ?m'"
    using lt e by (subst build_loop.simps) simp
  show ?case
  proof (cases "idx = i")
    case True
    have "map_of (build_loop entries (idx + 1) ?m') (fst (entries ! i)) = map_of ?m' (fst (entries ! i))"
      using 1(4) True by (intro build_loop_other) auto
    with True e step show ?thesis by (simp add: update_conv')
  next
    case False
    with 1(2) have "idx + 1 \<le> i" by simp
    from 1(1)[OF lt refl e[symmetric] refl refl this 1(3) 1(4)] step show ?thesis by simp
  qed
qed

text \<open>
  C1 (as the spec states it): building the index from
  \<open>[("Intro",1),("Methods",5),("Results",9)]\<close> yields
  \<open>{"Intro":[1,4], "Methods":[5,8], "Results":[9,null]}\<close>. The code stores the next
  entry's start page itself, not one less: the claimed map is not what it returns.
\<close>

theorem build_topic_map_example_not_one_less:
  "build_topic_map [(''Intro'', 1), (''Methods'', 5), (''Results'', 9)]
     \<noteq> [(''Intro'', 1, Some 4), (''Methods'', 5, Some 8), (''Results'', 9, None)]
   \<and> map_of (build_topic_map [(''Intro'', 1), (''Methods'', 5), (''Results'', 9)]) ''Intro''
     = Some (1, Some 5)"
  by (simp add: build_topic_map_def build_loop.simps next_page_def range_end_def)

text \<open>
  C1 (amended): the example yields \<open>{"Intro":[1,5], "Methods":[5,9], "Results":[9,null]}\<close>;
  in general the entry at index \<open>i\<close> (whose title does not occur again later) is stored with
  its own page as start, and as end the start page of entry \<open>i + 1\<close> when there is one and
  that page is non-zero and not smaller than its own start, \<open>None\<close> otherwise (so the last
  entry's end is \<open>None\<close>).
\<close>

theorem build_topic_map_end_is_next_start:
  "build_topic_map [(''Intro'', 1), (''Methods'', 5), (''Results'', 9)]
     = [(''Intro'', 1, Some 5), (''Methods'', 5, Some 9), (''Results'', 9, None)]
   \<and> (i < length entries \<longrightarrow>
        (\<forall>j. i < j \<and> j < length entries \<longrightarrow> fst (entries ! j) \<noteq> fst (entries ! i)) \<longrightarrow>
        map_of (build_topic_map entries) (fst (entries ! i))
          = Some (snd (entries ! i),
                  if i + 1 < length entries \<and> snd (entries ! (i + 1)) \<noteq> 0
                     \<and> snd (entries ! (i + 1)) \<ge> snd (entries ! i)
                  then Some (snd (entries ! (i + 1))) else None))"
proof (intro conjI impI)
  show "build_topic_map [(''Intro'', 1), (''Methods'', 5), (''Results'', 9)]
     = [(''Intro'', 1, Some 5), (''Methods'', 5, Some 9), (''Results'', 9, None)]"
    by (simp add: build_topic_map_def build_loop.simps next_page_def range_end_def)
next
  assume i: "i < length entries"
    and last: "\<forall>j. i < j \<and> j < length entries \<longrightarrow> fst (entries ! j) \<noteq> fst (entries ! i)"
  have "map_of (build_topic_map entries) (fst (entries ! i))
      = Some (snd (entries ! i), range_end (next_page entries i) (snd (entries ! i)))"
    unfolding build_topic_map_def using i last by (intro build_loop_entry) auto
  then show "map_of (build_topic_map entries) (fst (entries ! i))
          = Some (snd (entries ! i),
                  if i + 1 < length entries \<and> snd (entries ! (i + 1)) \<noteq> 0
                     \<and> snd (entries ! (i + 1)) \<ge> snd (entries ! i)
                  then Some (snd (entries ! (i + 1))) else None)"
    by (simp add: range_end_def next_page_def)
qed

theorem build_topic_map_end_is_next_start_witness:
  "map_of (build_topic_map [(''Intro'', 1), (''Methods'', 5), (''Results'', 9)]) ''Methods''
     = Some (5, Some 9)
   \<and> map_of (build_topic_map [(''Methods'', 5), (''Results'', 9), (''Annex'', 3)]) ''Results''
     = Some (9, None)"
proof -
  have a: "map_of (build_topic_map [(''Intro'', 1), (''Methods'', 5), (''Results'', 9)]) ''Methods''
     = Some (5, Some 9)"
    using build_topic_map_end_is_next_start
      [of 1 "[(''Intro'', 1), (''Methods'', 5), (''Results'', 9)]"]
    by (simp add: nth_Cons')
  have b: "map_of (build_topic_map [(''Methods'', 5), (''Results'', 9), (''Annex'', 3)]) ''Results''
     = Some (9, None)"
    using build_topic_map_end_is_next_start
      [of 1 "[(''Methods'', 5), (''Results'', 9), (''Annex'', 3)]"]
    by (simp add: nth_Cons' less_Suc_eq)
  from a b show ?thesis by simp
qed

section \<open>Page-range parser (\<open>actions.parse_page_query\<close>, \<open>extract_toc.parse_page_input\<close>)\<close>










subsection \<open>Which tokens parse\<close>

























section \<open>TOC locator (\<open>extract_toc.is_toc_like_page\<close>, \<open>find_toc_page_range\<close>)\<close>

definition line_break :: "char \<Rightarrow> bool" where
  \<comment> \<open>the line boundaries of \<open>str.splitlines\<close>: LF, VT, FF, CR, FS, GS, RS, NEL\<close>
  "line_break c = (let n = code c in (10 \<le> n \<and> n \<le> 13) \<or> (28 \<le> n \<and> n \<le> 30) \<or> n = 133)"

function py_splitlines :: "string \<Rightarrow> string list" where
  \<comment> \<open>\<open>s.splitlines()\<close>: CR LF is one boundary, no empty last line\<close>
  "py_splitlines s =
     (if s = [] then []
      else
        (let line = takeWhile (\<lambda>c. \<not> line_break c) s;
             rest = dropWhile (\<lambda>c. \<not> line_break c) s
         in case rest of
              [] \<Rightarrow> [line]
            | b # r \<Rightarrow>
                line # py_splitlines
                  (if code b = 13 \<and> r \<noteq> [] \<and> code (hd r) = 10 then tl r else r)))"
  by pat_completeness auto
termination
proof (relation "measure length", goal_cases)
  case 1
  show ?case by simp
next
  case (2 s line rest b r)
  from 2 have "length (b # r) \<le> length s"
    by (metis length_dropWhile_le)
  then have "length r < length s" by simp
  moreover have "length (tl r) \<le> length r" by simp
  ultimately show ?case by auto
qed

declare py_splitlines.simps [simp del]

definition stripped_lines :: "string \<Rightarrow> string list" where
  \<comment> \<open>\<open>[ln.strip() for ln in text.splitlines() if ln.strip()]\<close>\<close>
  "stripped_lines text = filter (\<lambda>lin. lin \<noteq> []) (map py_strip (py_splitlines text))"

definition toc_pat_search :: "string \<Rightarrow> bool" where
  \<comment> \<open>\<open>toc_pat.search(ln)\<close> for \<open>(?:\.{2,}\s*\d+$|\s{2,}\d+$)\<close>, read from the end of the
      line: the digits, then either blanks and two dots, or two blanks\<close>
  "toc_pat_search lin =
     (let r = rev lin;
          digits = takeWhile re_digit r;
          pre = dropWhile re_digit r;
          dots = dropWhile py_isspace pre
      in digits \<noteq> [] \<and>
         (take 2 dots = ''..'' \<or> (length pre \<ge> 2 \<and> list_all py_isspace (take 2 pre))))"

definition is_toc_like_page :: "string \<Rightarrow> int \<Rightarrow> int \<Rightarrow> bool" where
  "is_toc_like_page text min_entry_lines min_total_lines =
     (if text = [] then False
      else
        (let lines = stripped_lines text in
         if int (length lines) < min_total_lines then False
         else int (length (filter toc_pat_search lines)) \<ge> min_entry_lines))"

definition toc_like :: "string \<Rightarrow> bool" where
  \<comment> \<open>\<open>is_toc_like_page(txt)\<close> with the defaults of its signature\<close>
  "toc_like txt = is_toc_like_page txt 3 5"

definition has_heading :: "string \<Rightarrow> bool" where
  \<comment> \<open>\<open>any(re.match(r"^(table of )?contents$", ln) for ln in low)\<close>, \<open>low\<close> the
      stripped, lower-cased, non-empty lines\<close>
  "has_heading txt =
     list_ex (\<lambda>lin. lin = ''contents'' \<or> lin = ''table of contents'')
       (map py_lower (stripped_lines txt))"

definition page_text :: "string option list \<Rightarrow> nat \<Rightarrow> string" where
  \<comment> \<open>\<open>pdf.pages[i].extract_text() or ""\<close>\<close>
  "page_text pages i = (case pages ! i of None \<Rightarrow> [] | Some t \<Rightarrow> t)"

function scan_pages ::
  "string option list \<Rightarrow> nat \<Rightarrow> nat \<Rightarrow> nat option \<times> nat option \<Rightarrow> nat option \<times> nat option"
where
  \<comment> \<open>the \<open>for i in range(n)\<close> loop from \<open>i\<close> on, with \<open>(toc_start, toc_end)\<close>\<close>
  "scan_pages pages n i (toc_start, toc_end) =
     (if i < n then
        (let txt = page_text pages i in
         if toc_start = None then
           (if has_heading txt then scan_pages pages n (i + 1) (Some (i + 1), Some (i + 1))
            else if toc_like txt then scan_pages pages n (i + 1) (Some (i + 1), Some (i + 1))
            else scan_pages pages n (i + 1) (toc_start, toc_end))
         else
           (if toc_like txt then scan_pages pages n (i + 1) (toc_start, Some (i + 1))
            else (toc_start, toc_end)))
      else (toc_start, toc_end))"
  by pat_completeness auto
termination
  by (relation "measure (\<lambda>(pages, n, i, st). n - i)") auto

declare scan_pages.simps [simp del]

definition find_toc_page_range :: "string option list \<Rightarrow> int \<Rightarrow> int \<Rightarrow> (nat \<times> nat) option" where
  \<comment> \<open>the pages are what \<open>pdfplumber\<close> opens; \<open>None\<close> stands for the pair \<open>(None, None)\<close>\<close>
  "find_toc_page_range pages max_scan_pages min_toc_len =
     (case scan_pages pages (nat (min (int (length pages)) max_scan_pages)) 0 (None, None) of
        (Some toc_start, Some toc_end) \<Rightarrow>
          if toc_start \<noteq> 0 \<and> toc_end \<noteq> 0 \<and> int toc_end - int toc_start + 1 \<ge> min_toc_len
          then Some (toc_start, toc_end) else None
      | _ \<Rightarrow> None)"

definition find_toc_default :: "string option list \<Rightarrow> (nat \<times> nat) option" where
  \<comment> \<open>the call \<open>find_toc_page_range(path)\<close>: \<open>max_scan_pages=50, min_toc_len=2\<close>\<close>
  "find_toc_default pages = find_toc_page_range pages 50 2"

definition starts_toc :: "string option \<Rightarrow> bool" where
  \<comment> \<open>a page on which the scan sets \<open>toc_start\<close>\<close>
  "starts_toc p = (let txt = (case p of None \<Rightarrow> [] | Some t \<Rightarrow> t) in has_heading txt \<or> toc_like txt)"

definition continues_toc :: "string option \<Rightarrow> bool" where
  \<comment> \<open>a page over which the scan extends \<open>toc_end\<close>\<close>
  "continues_toc p = toc_like (case p of None \<Rightarrow> [] | Some t \<Rightarrow> t)"

subsection \<open>What the scan returns\<close>

lemma scan_pages_cong:
  "\<forall>j < n. pages ! j = pages' ! j \<Longrightarrow> scan_pages pages n i st = scan_pages pages' n i st"
proof (induction pages n i st rule: scan_pages.induct)
  case (1 pages n i toc_start toc_end)
  show ?case
  proof (cases "i < n")
    case False
    then show ?thesis by (simp add: scan_pages.simps)
  next
    case True
    with 1(5) have pt: "page_text pages' i = page_text pages i" by (simp add: page_text_def)
    show ?thesis
      using True pt 1
      by (subst scan_pages.simps, subst (2) scan_pages.simps) (simp add: Let_def)
  qed
qed

definition span_ok :: "nat \<Rightarrow> nat option \<times> nat option \<Rightarrow> bool" where
  "span_ok i st =
     (st = (None, None) \<or> (\<exists>s e. st = (Some s, Some e) \<and> 1 \<le> s \<and> s \<le> e \<and> e \<le> i))"

lemma scan_pages_span_ok:
  "span_ok i st \<Longrightarrow> i \<le> n \<Longrightarrow> span_ok n (scan_pages pages n i st)"
proof (induction pages n i st rule: scan_pages.induct)
  case (1 pages n i toc_start toc_end)
  show ?case
  proof (cases "i < n")
    case False
    with 1(5,6) show ?thesis by (simp add: scan_pages.simps)
  next
    case True
    have a: "span_ok (i + 1) (Some (i + 1), Some (i + 1))" by (simp add: span_ok_def)
    have b: "toc_start = None \<Longrightarrow> span_ok (i + 1) (toc_start, toc_end)"
      using 1(5) by (auto simp: span_ok_def)
    have c: "toc_start \<noteq> None \<Longrightarrow> span_ok (i + 1) (toc_start, Some (i + 1))"
      using 1(5) by (auto simp: span_ok_def)
    have d: "span_ok n (toc_start, toc_end)"
      using 1(5,6) by (auto simp: span_ok_def)
    show ?thesis
      using True 1(1-4) a b c d
      by (subst scan_pages.simps) (simp add: Let_def)
  qed
qed

lemma starts_toc_text: "starts_toc (pages ! i) = (has_heading (page_text pages i) \<or> toc_like (page_text pages i))"
  by (simp add: starts_toc_def page_text_def Let_def)

lemma continues_toc_text: "continues_toc (pages ! i) = toc_like (page_text pages i)"
  by (simp add: continues_toc_def page_text_def)

lemma scan_pages_skip:
  "i \<le> k \<Longrightarrow> k \<le> n \<Longrightarrow> \<forall>j. i \<le> j \<and> j < k \<longrightarrow> \<not> starts_toc (pages ! j)
   \<Longrightarrow> scan_pages pages n i (None, te) = scan_pages pages n k (None, te)"
proof (induction "k - i" arbitrary: i)
  case 0
  then show ?case by simp
next
  case (Suc d)
  then have lt: "i < k" "i < n" by auto
  with Suc.prems have "\<not> starts_toc (pages ! i)" by simp
  then have "scan_pages pages n i (None, te) = scan_pages pages n (i + 1) (None, te)"
    using lt by (subst scan_pages.simps) (simp add: starts_toc_text)
  moreover have "scan_pages pages n (i + 1) (None, te) = scan_pages pages n k (None, te)"
    using Suc by (intro Suc.hyps(1)) auto
  ultimately show ?case by simp
qed

lemma scan_pages_start:
  "k < n \<Longrightarrow> starts_toc (pages ! k)
   \<Longrightarrow> scan_pages pages n k (None, te) = scan_pages pages n (k + 1) (Some (k + 1), Some (k + 1))"
  by (subst scan_pages.simps) (auto simp: starts_toc_text Let_def)

lemma scan_pages_extend:
  "i \<le> n \<Longrightarrow> n \<le> length pages
   \<Longrightarrow> scan_pages pages n i (Some s, Some i)
       = (Some s, Some (i + length (takeWhile continues_toc (drop i (take n pages)))))"
proof (induction "n - i" arbitrary: i)
  case 0
  then show ?case by (simp add: scan_pages.simps)
next
  case (Suc d)
  then have lt: "i < n" by auto
  with Suc.prems have dr: "drop i (take n pages) = pages ! i # drop (i + 1) (take n pages)"
    by (simp add: Cons_nth_drop_Suc[symmetric])
  show ?case
  proof (cases "continues_toc (pages ! i)")
    case False
    with lt dr show ?thesis
      by (subst scan_pages.simps) (simp add: continues_toc_text)
  next
    case True
    then have "scan_pages pages n i (Some s, Some i) = scan_pages pages n (i + 1) (Some s, Some (i + 1))"
      using lt by (subst scan_pages.simps) (simp add: continues_toc_text)
    moreover have "scan_pages pages n (i + 1) (Some s, Some (i + 1))
        = (Some s, Some (i + 1 + length (takeWhile continues_toc (drop (i + 1) (take n pages)))))"
      using Suc by (intro Suc.hyps(1)) auto
    ultimately show ?thesis using True dr by simp
  qed
qed

lemma scan_pages_none:
  "\<forall>j. j < n \<longrightarrow> \<not> starts_toc (pages ! j) \<Longrightarrow> scan_pages pages n 0 (None, None) = (None, None)"
  using scan_pages_skip[of 0 n n pages None] by (simp add: scan_pages.simps)

lemma scan_pages_found:
  assumes "k < n" and "n \<le> length pages" and "starts_toc (pages ! k)"
    and "\<forall>j < k. \<not> starts_toc (pages ! j)"
  shows "scan_pages pages n 0 (None, None)
       = (Some (k + 1), Some (k + 1 + length (takeWhile continues_toc (drop (k + 1) (take n pages)))))"
proof -
  have "scan_pages pages n 0 (None, None) = scan_pages pages n k (None, None)"
    using assms by (intro scan_pages_skip) auto
  also have "\<dots> = scan_pages pages n (k + 1) (Some (k + 1), Some (k + 1))"
    using assms by (intro scan_pages_start) auto
  also have "\<dots> = (Some (k + 1), Some (k + 1 + length (takeWhile continues_toc (drop (k + 1) (take n pages)))))"
    using assms by (intro scan_pages_extend) auto
  finally show ?thesis .
qed

lemma scan_window: "nat (min (int (length (take (nat m) pages))) m) = nat (min (int (length pages)) m)"
  by auto

lemma find_toc_take:
  "find_toc_page_range (take (nat max_scan_pages) pages) max_scan_pages min_toc_len
   = find_toc_page_range pages max_scan_pages min_toc_len"
proof -
  let ?n = "nat (min (int (length pages)) max_scan_pages)"
  have "scan_pages (take (nat max_scan_pages) pages) ?n 0 (None, None)
      = scan_pages pages ?n 0 (None, None)"
    by (intro scan_pages_cong) auto
  then show ?thesis
    unfolding find_toc_page_range_def scan_window by simp
qed

lemma find_toc_span:
  assumes "find_toc_page_range pages max_scan_pages min_toc_len = Some (s, e)"
  shows "int e - int s + 1 \<ge> min_toc_len \<and> 1 \<le> s \<and> s \<le> e
         \<and> e \<le> nat (min (int (length pages)) max_scan_pages)"
proof -
  let ?n = "nat (min (int (length pages)) max_scan_pages)"
  have "span_ok ?n (scan_pages pages ?n 0 (None, None))"
    by (intro scan_pages_span_ok) (auto simp: span_ok_def)
  with assms show ?thesis
    by (auto simp: find_toc_page_range_def span_ok_def split: prod.splits option.splits if_splits)
qed

lemma take_window: "take (nat (min (int (length pages)) m)) pages = take (nat m) pages"
  by (cases "int (length pages) \<le> m") (simp_all add: min_def)

definition example_toc_text :: string where
  \<comment> \<open>five lines, three of them ending in a dot leader and a page number\<close>
  "example_toc_text =
     ''Intro .... 1'' @ [CHR 0x0A] @ ''Methods .... 5'' @ [CHR 0x0A] @ ''Results .... 9''
       @ [CHR 0x0A] @ ''Annex'' @ [CHR 0x0A] @ ''Index'' @ [CHR 0x0A]"

definition example_document :: "string option list" where
  \<comment> \<open>a cover, a heading page, two pages of entries, a prose page, one more entry page\<close>
  "example_document =
     [Some ''A report'', Some (''Table of Contents'' @ [CHR 0x0A]), Some example_toc_text,
      Some example_toc_text, Some ''Prose.'', Some example_toc_text]"

text \<open>
  C9: the TOC locator looks only at the first \<open>min(N, max_scan_pages)\<close> pages (50 by
  default); a span it returns has \<open>toc_end - toc_start + 1 \<ge> min_toc_len\<close> (2 by default)
  and lies inside that window; when no page of the window starts a TOC it reports
  not-found, and when the first starting page is page \<open>k + 1\<close> the span runs over the
  TOC-like pages that follow it directly and is returned exactly when it is long enough,
  not-found being reported otherwise. Not-found is the value \<open>None\<close>, not an error.
\<close>

theorem find_toc_page_range_window_and_span:
  "find_toc_page_range pages max_scan_pages min_toc_len
     = find_toc_page_range (take (nat max_scan_pages) pages) max_scan_pages min_toc_len
   \<and> (find_toc_page_range pages max_scan_pages min_toc_len = Some (s, e) \<longrightarrow>
        int e - int s + 1 \<ge> min_toc_len \<and> 1 \<le> s \<and> s \<le> e
        \<and> e \<le> nat (min (int (length pages)) max_scan_pages))
   \<and> ((\<forall>p \<in> set (take (nat max_scan_pages) pages). \<not> starts_toc p) \<longrightarrow>
        find_toc_page_range pages max_scan_pages min_toc_len = None)
   \<and> (k < nat (min (int (length pages)) max_scan_pages) \<and> starts_toc (pages ! k)
        \<and> (\<forall>j < k. \<not> starts_toc (pages ! j)) \<longrightarrow>
        find_toc_page_range pages max_scan_pages min_toc_len =
          (let m = length (takeWhile continues_toc (drop (k + 1) (take (nat max_scan_pages) pages)))
           in if int m + 1 \<ge> min_toc_len then Some (k + 1, k + 1 + m) else None))
   \<and> find_toc_default pages = find_toc_page_range pages 50 2"
proof (intro conjI impI)
  let ?n = "nat (min (int (length pages)) max_scan_pages)"
  show "find_toc_page_range pages max_scan_pages min_toc_len
     = find_toc_page_range (take (nat max_scan_pages) pages) max_scan_pages min_toc_len"
    by (simp add: find_toc_take)
  show "find_toc_default pages = find_toc_page_range pages 50 2"
    by (simp add: find_toc_default_def)
  {
    assume "find_toc_page_range pages max_scan_pages min_toc_len = Some (s, e)"
    from find_toc_span[OF this]
    show "int e - int s + 1 \<ge> min_toc_len" "1 \<le> s" "s \<le> e" "e \<le> ?n" by auto
  }
  {
    assume none: "\<forall>p \<in> set (take (nat max_scan_pages) pages). \<not> starts_toc p"
    have "\<forall>j. j < ?n \<longrightarrow> \<not> starts_toc (pages ! j)"
    proof (intro allI impI)
      fix j assume j: "j < ?n"
      then have jj: "j < length pages" "j < nat max_scan_pages" by linarith+
      then have "take (nat max_scan_pages) pages ! j = pages ! j" by simp
      moreover from jj have "j < length (take (nat max_scan_pages) pages)" by simp
      ultimately have "pages ! j \<in> set (take (nat max_scan_pages) pages)"
        by (metis nth_mem)
      with none show "\<not> starts_toc (pages ! j)" by blast
    qed
    then have "scan_pages pages ?n 0 (None, None) = (None, None)" by (rule scan_pages_none)
    then show "find_toc_page_range pages max_scan_pages min_toc_len = None"
      by (simp add: find_toc_page_range_def)
  }
  {
    assume a: "k < ?n \<and> starts_toc (pages ! k) \<and> (\<forall>j < k. \<not> starts_toc (pages ! j))"
    then have "scan_pages pages ?n 0 (None, None)
       = (Some (k + 1), Some (k + 1 + length (takeWhile continues_toc (drop (k + 1) (take ?n pages)))))"
      by (intro scan_pages_found) auto
    then show "find_toc_page_range pages max_scan_pages min_toc_len =
          (let m = length (takeWhile continues_toc (drop (k + 1) (take (nat max_scan_pages) pages)))
           in if int m + 1 \<ge> min_toc_len then Some (k + 1, k + 1 + m) else None)"
      by (simp add: find_toc_page_range_def take_window Let_def)
  }
qed

theorem find_toc_page_range_window_and_span_witness:
  "find_toc_page_range example_document 50 2 = Some (2, 4)
   \<and> find_toc_page_range example_document 3 2 = Some (2, 3)
   \<and> find_toc_page_range example_document 2 2 = None
   \<and> find_toc_page_range [Some ''A report'', Some ''Prose.''] 50 2 = None
   \<and> find_toc_default example_document = Some (2, 4)"
proof -
  have st: "\<not> starts_toc (Some ''A report'')" "\<not> starts_toc (Some ''Prose.'')"
    "starts_toc (Some (''Table of Contents'' @ [CHR 0x0A]))"
    by code_simp+
  have ct: "continues_toc (Some example_toc_text)" "\<not> continues_toc (Some ''Prose.'')"
    by code_simp+
  have k: "starts_toc (example_document ! 1)" "\<forall>j < 1. \<not> starts_toc (example_document ! j)"
    using st by (simp_all add: example_document_def)
  have 1: "find_toc_page_range example_document 50 2 = Some (2, 4)"
    using find_toc_page_range_window_and_span[of example_document 50 2 0 0 1,
        THEN conjunct2, THEN conjunct2, THEN conjunct2, THEN conjunct1] k ct
    by (simp add: example_document_def)
  have 2: "find_toc_page_range example_document 3 2 = Some (2, 3)"
    using find_toc_page_range_window_and_span[of example_document 3 2 0 0 1,
        THEN conjunct2, THEN conjunct2, THEN conjunct2, THEN conjunct1] k ct
    by (simp add: example_document_def)
  have 3: "find_toc_page_range example_document 2 2 = None"
    using find_toc_page_range_window_and_span[of example_document 2 2 0 0 1,
        THEN conjunct2, THEN conjunct2, THEN conjunct2, THEN conjunct1] k ct
    by (simp add: example_document_def)
  have 4: "find_toc_page_range [Some ''A report'', Some ''Prose.''] 50 2 = None"
    using find_toc_page_range_window_and_span[of "[Some ''A report'', Some ''Prose.'']" 50 2 0 0 0,
        THEN conjunct2, THEN conjunct2, THEN conjunct1] st
    by simp
  have 5: "find_toc_default example_document = Some (2, 4)"
    using find_toc_page_range_window_and_span[of example_document 50 2 0 0 0,
        THEN conjunct2, THEN conjunct2, THEN conjunct2, THEN conjunct2] 1 by simp
  from 1 2 3 4 5 show ?thesis by simp
qed

section \<open>Layout reconstruction (\<open>spreadsheet_analysis.analyze_spreadsheet_auto_merge\<close>)\<close>

text \<open>
  The function works on the result of the document-analysis service: pages with their
  lines, and tables with their bounding regions and cells. Coordinates are modelled as
  exact rationals (the rounding of floats is not modelled). The two operations of the
  geometry library are parameters: \<open>polygon_ok coords\<close> says that \<open>Polygon(coords)\<close> is
  built without an exception, \<open>contains coords pt\<close> is \<open>Polygon(coords).contains(pt)\<close>.
  The model returns the list \<open>sheet_rows\<close>, which the function wraps as the rows of
  "Sheet1"; an exception is the value \<open>Inl\<close>, and leaves nothing stored or returned.
\<close>

type_synonym point = "rat \<times> rat"

record cell =
  row_index :: int
  column_index :: int
  column_span :: int
  content :: string

record region =
  page_number :: int
  polygon :: "point list"

record table =
  bounding_regions :: "region list"
  cells :: "cell list"

record line =
  content :: string
  polygon :: "point list"

record page =
  page_number :: int
  lines :: "line list"

record analyze_result =
  pages :: "page list"
  tables :: "table list"

record tinfo =
  table :: table
  poly :: "point list"
  ymin :: rat
  ymax :: rat
  xmin :: rat

record band =
  tables :: "tinfo list"
  ymin :: rat
  ymax :: rat

record out_cell =
  cell_value :: string
  enable :: bool
  index :: int

record sheet_row =
  cells :: "out_cell list"
  index :: int

datatype element =
  Band rat "(int \<times> (int \<times> string) list) list"
| Line rat string

fun el_y :: "element \<Rightarrow> rat" where
  "el_y (Band y rows) = y"
| "el_y (Line y text) = y"

definition py_min :: "'a::linorder list \<Rightarrow> 'a" where
  \<comment> \<open>\<open>min(xs)\<close> of a non-empty list\<close>
  "py_min xs = foldl min (hd xs) (tl xs)"

definition py_max :: "'a::linorder list \<Rightarrow> 'a" where
  \<comment> \<open>\<open>max(xs)\<close> of a non-empty list\<close>
  "py_max xs = foldl max (hd xs) (tl xs)"

subsection \<open>Tables of a page\<close>

fun collect_tables ::
  "(point list \<Rightarrow> bool) \<Rightarrow> int \<Rightarrow> table list \<Rightarrow> tinfo list \<Rightarrow> py_error + tinfo list"
where
  \<comment> \<open>\<open>for tbl in result.tables\<close>, for the page numbered \<open>pn\<close>; \<open>acc\<close> is the list \<open>tables\<close>\<close>
  "collect_tables polygon_ok pn [] acc = Inr acc"
| "collect_tables polygon_ok pn (tbl # rest) acc =
     (case bounding_regions tbl of
        [] \<Rightarrow> Inl IndexError
      | reg # _ \<Rightarrow>
          if region.page_number reg \<noteq> pn then collect_tables polygon_ok pn rest acc
          else
            (let coords = region.polygon reg;
                 ys = map snd coords;
                 xs = map fst coords
             in if \<not> polygon_ok coords then Inl ValueError
                else if ys = [] then Inl ValueError
                else collect_tables polygon_ok pn rest
                       (acc @ [\<lparr>table = tbl, poly = coords, ymin = py_min ys,
                                ymax = py_max ys, xmin = py_min xs\<rparr>])))"

subsection \<open>Bands\<close>

definition overlaps :: "tinfo \<Rightarrow> band \<Rightarrow> bool" where
  \<comment> \<open>\<open>not (tbl["ymax"] < band["ymin"] or tbl["ymin"] > band["ymax"])\<close>\<close>
  "overlaps tbl b = (\<not> (tinfo.ymax tbl < band.ymin b \<or> tinfo.ymin tbl > band.ymax b))"

definition join_band :: "tinfo \<Rightarrow> band \<Rightarrow> band" where
  "join_band tbl b =
     \<lparr>tables = band.tables b @ [tbl],
      ymin = min (band.ymin b) (tinfo.ymin tbl),
      ymax = max (band.ymax b) (tinfo.ymax tbl)\<rparr>"

definition new_band :: "tinfo \<Rightarrow> band" where
  "new_band tbl = \<lparr>tables = [tbl], ymin = tinfo.ymin tbl, ymax = tinfo.ymax tbl\<rparr>"

fun place :: "tinfo \<Rightarrow> band list \<Rightarrow> band list" where
  \<comment> \<open>the inner \<open>for band in bands\<close> with its \<open>break\<close>, and \<open>if not placed\<close>\<close>
  "place tbl [] = [new_band tbl]"
| "place tbl (b # bs) =
     (if overlaps tbl b then join_band tbl b # bs else b # place tbl bs)"

definition cluster :: "tinfo list \<Rightarrow> band list" where
  \<comment> \<open>\<open>bands = []; for tbl in tables: ...\<close>\<close>
  "cluster ts = foldl (\<lambda>bands tbl. place tbl bands) [] ts"

subsection \<open>The layout element of a band\<close>

fun col_offsets :: "tinfo list \<Rightarrow> int \<Rightarrow> int list \<Rightarrow> py_error + int list" where
  \<comment> \<open>\<open>offsets, cum = [], 0; for t in band["tables"]: ...\<close>; \<open>max\<close> of no cells raises\<close>
  "col_offsets [] cum offsets = Inr offsets"
| "col_offsets (t # ts) cum offsets =
     (if table.cells (table t) = [] then Inl ValueError
      else
        (let ncols = py_max (map column_index (table.cells (table t))) + 1
         in col_offsets ts (cum + ncols) (offsets @ [cum])))"

definition append_at ::
  "int \<Rightarrow> (int \<times> string) \<Rightarrow> (int \<times> (int \<times> string) list) list
     \<Rightarrow> (int \<times> (int \<times> string) list) list"
where
  \<comment> \<open>\<open>band_rows.setdefault(r, []).append(entry)\<close>\<close>
  "append_at r entry band_rows =
     (case map_of band_rows r of
        None \<Rightarrow> band_rows @ [(r, [entry])]
      | Some entries \<Rightarrow> AList.update r (entries @ [entry]) band_rows)"

definition add_cell ::
  "int \<Rightarrow> (int \<times> (int \<times> string) list) list \<Rightarrow> cell \<Rightarrow> (int \<times> (int \<times> string) list) list"
where
  \<comment> \<open>\<open>for span_idx in range(span)\<close>, for one cell of a table with offset \<open>off\<close>\<close>
  "add_cell off band_rows c =
     foldl (\<lambda>rows span_idx.
              append_at (row_index c) (off + column_index c + span_idx, py_strip (cell.content c)) rows)
       band_rows [0 .. column_span c - 1]"

definition collect_rows :: "tinfo list \<Rightarrow> int list \<Rightarrow> (int \<times> (int \<times> string) list) list" where
  \<comment> \<open>\<open>band_rows = {}; for idx, t in enumerate(band["tables"]): off = offsets[idx]; ...\<close>\<close>
  "collect_rows ts offsets =
     foldl (\<lambda>rows (t, off). foldl (add_cell off) rows (table.cells (table t))) []
       (zip ts offsets)"

definition band_element :: "band \<Rightarrow> py_error + element" where
  "band_element b =
     (let ts = sort_key tinfo.xmin (band.tables b) in
      case col_offsets ts 0 [] of
        Inl e \<Rightarrow> Inl e
      | Inr offsets \<Rightarrow> Inr (Band (band.ymin b) (collect_rows ts offsets)))"

fun band_elements :: "band list \<Rightarrow> element list \<Rightarrow> py_error + element list" where
  \<comment> \<open>\<open>elements = []; for band in bands: ...\<close>\<close>
  "band_elements [] elements = Inr elements"
| "band_elements (b # bs) elements =
     (case band_element b of
        Inl e \<Rightarrow> Inl e
      | Inr el \<Rightarrow> band_elements bs (elements @ [el]))"

subsection \<open>Text outside the tables\<close>

definition centroid :: "point list \<Rightarrow> point" where
  \<comment> \<open>\<open>(sum(xs) / len(coords), sum(ys) / len(ys))\<close> for non-empty \<open>coords\<close>\<close>
  "centroid coords =
     (sum_list (map fst coords) / of_nat (length coords),
      sum_list (map snd coords) / of_nat (length coords))"

fun line_elements ::
  "(point list \<Rightarrow> point \<Rightarrow> bool) \<Rightarrow> point list list \<Rightarrow> line list \<Rightarrow> element list
     \<Rightarrow> py_error + element list"
where
  \<comment> \<open>\<open>for line in page.lines\<close>; the division by \<open>len(ys)\<close> raises for no vertices\<close>
  "line_elements contains table_polys [] elements = Inr elements"
| "line_elements contains table_polys (lin # rest) elements =
     (let coords = line.polygon lin in
      if coords = [] then Inl ZeroDivisionError
      else
        (let cy = snd (centroid coords);
             pt = centroid coords
         in if \<not> list_ex (\<lambda>p. contains p pt) table_polys
            then line_elements contains table_polys rest
                   (elements @ [Line cy (py_strip (line.content lin))])
            else line_elements contains table_polys rest elements))"

subsection \<open>Rows\<close>

definition row_cells :: "(int \<times> string) list \<Rightarrow> out_cell list" where
  \<comment> \<open>\<open>cells.sort(key=col)\<close>, then the cells numbered from 1\<close>
  "row_cells entries =
     map (\<lambda>(i, c). \<lparr>cell_value = snd c, enable = True, index = int i + 1\<rparr>)
       (enumerate 0 (sort_key fst entries))"

fun emit_band ::
  "(int \<times> (int \<times> string) list) list \<Rightarrow> sheet_row list \<times> int \<Rightarrow> sheet_row list \<times> int"
where
  \<comment> \<open>\<open>for r in sorted(el["rows"]): cells = el["rows"][r]; ...\<close>, over the items in the
      order of their keys\<close>
  "emit_band [] (sheet_rows, current_row) = (sheet_rows, current_row)"
| "emit_band ((r, entries) # items) (sheet_rows, current_row) =
     emit_band items
       (sheet_rows @ [\<lparr>cells = row_cells entries, index = current_row\<rparr>], current_row + 1)"

fun emit_element :: "element \<Rightarrow> sheet_row list \<times> int \<Rightarrow> sheet_row list \<times> int" where
  "emit_element (Band y rows) st =
     (case emit_band (sort_key fst rows) st of
        (sheet_rows, current_row) \<Rightarrow> (sheet_rows, current_row + 1))"
| "emit_element (Line y text) (sheet_rows, current_row) =
     (sheet_rows @ [\<lparr>cells = [\<lparr>cell_value = text, enable = True, index = 1\<rparr>],
                     index = current_row\<rparr>],
      current_row + 1)"

definition emit_elements :: "element list \<Rightarrow> sheet_row list \<times> int \<Rightarrow> sheet_row list \<times> int" where
  \<comment> \<open>\<open>elements.sort(key=y)\<close> (a stable sort), then \<open>for el in elements\<close>\<close>
  "emit_elements elements st = foldl (\<lambda>s el. emit_element el s) st (sort_key el_y elements)"

subsection \<open>Pages and the whole document\<close>

definition page_elements ::
  "(point list \<Rightarrow> bool) \<Rightarrow> (point list \<Rightarrow> point \<Rightarrow> bool) \<Rightarrow> analyze_result \<Rightarrow> page
     \<Rightarrow> py_error + element list"
where
  \<comment> \<open>the list \<open>elements\<close> of one page, before it is sorted\<close>
  "page_elements polygon_ok contains result pg =
     (case collect_tables polygon_ok (page.page_number pg) (analyze_result.tables result) [] of
        Inl e \<Rightarrow> Inl e
      | Inr tbls \<Rightarrow>
          (case band_elements (cluster tbls) [] of
             Inl e \<Rightarrow> Inl e
           | Inr elements \<Rightarrow>
               line_elements contains (map poly tbls) (page.lines pg) elements))"

fun process_pages ::
  "(point list \<Rightarrow> bool) \<Rightarrow> (point list \<Rightarrow> point \<Rightarrow> bool) \<Rightarrow> analyze_result \<Rightarrow> page list
     \<Rightarrow> sheet_row list \<times> int \<Rightarrow> py_error + sheet_row list \<times> int"
where
  \<comment> \<open>\<open>for page in result.pages\<close>, with \<open>(sheet_rows, current_row)\<close>\<close>
  "process_pages polygon_ok contains result [] st = Inr st"
| "process_pages polygon_ok contains result (pg # rest) st =
     (case page_elements polygon_ok contains result pg of
        Inl e \<Rightarrow> Inl e
      | Inr elements \<Rightarrow>
          process_pages polygon_ok contains result rest (emit_elements elements st))"

definition analyze_spreadsheet_auto_merge ::
  "(point list \<Rightarrow> bool) \<Rightarrow> (point list \<Rightarrow> point \<Rightarrow> bool) \<Rightarrow> analyze_result
     \<Rightarrow> py_error + sheet_row list"
where
  \<comment> \<open>\<open>sheet_rows = []; current_row = 1; ...\<close>; the result is \<open>data["sheets"][0]["rows"]\<close>\<close>
  "analyze_spreadsheet_auto_merge polygon_ok contains result =
     (case process_pages polygon_ok contains result (analyze_result.pages result) ([], 1) of
        Inl e \<Rightarrow> Inl e
      | Inr (sheet_rows, current_row) \<Rightarrow> Inr sheet_rows)"

subsection \<open>Properties of the band clustering\<close>

lemma cluster_snoc: "cluster (ts @ [t]) = place t (cluster ts)"
  by (simp add: cluster_def)

lemma place_no_overlap:
  "\<forall>b \<in> set bs. \<not> overlaps t b \<Longrightarrow> place t bs = bs @ [new_band t]"
  by (induction bs) auto

lemma place_first_overlap:
  "i < length bs \<Longrightarrow> overlaps t (bs ! i) \<Longrightarrow> \<forall>j < i. \<not> overlaps t (bs ! j)
   \<Longrightarrow> place t bs = bs[i := join_band t (bs ! i)]"
proof (induction bs arbitrary: i)
  case Nil
  then show ?case by simp
next
  case (Cons b bs)
  show ?case
  proof (cases i)
    case 0
    with Cons.prems show ?thesis by simp
  next
    case (Suc k)
    with Cons.prems have nb: "\<not> overlaps t b" by auto
    from Suc Cons.prems have "place t bs = bs[k := join_band t (bs ! k)]"
      by (intro Cons.IH) auto
    with nb Suc show ?thesis by simp
  qed
qed

definition tables_overlap :: "tinfo \<Rightarrow> tinfo \<Rightarrow> bool" where
  \<comment> \<open>the intervals of two tables overlap, touching included\<close>
  "tables_overlap a b = (\<not> (tinfo.ymax a < tinfo.ymin b \<or> tinfo.ymin a > tinfo.ymax b))"

definition covers :: "band \<Rightarrow> tinfo \<Rightarrow> bool" where
  "covers b t = (band.ymin b \<le> tinfo.ymin t \<and> tinfo.ymax t \<le> band.ymax b)"

lemma overlaps_covered: "covers b a \<Longrightarrow> tables_overlap t a \<Longrightarrow> overlaps t b"
  by (auto simp: covers_def tables_overlap_def overlaps_def)

lemma covers_join: "covers (join_band t b) t" "covers b a \<Longrightarrow> covers (join_band t b) a"
  by (auto simp: covers_def join_band_def)

lemma cluster_pairwise_one_band:
  assumes "ts \<noteq> []" and "\<forall>a \<in> set ts. \<forall>b \<in> set ts. tables_overlap a b"
  shows "\<exists>b. cluster ts = [b] \<and> (\<forall>a \<in> set ts. covers b a) \<and> band.tables b = ts"
  using assms
proof (induction ts rule: rev_induct)
  case Nil
  then show ?case by simp
next
  case (snoc t ts)
  show ?case
  proof (cases "ts = []")
    case True
    then show ?thesis by (simp add: cluster_def new_band_def covers_def)
  next
    case False
    with snoc obtain b where b: "cluster ts = [b]" "\<forall>a \<in> set ts. covers b a" "band.tables b = ts"
      by auto
    from False obtain a where a: "a \<in> set ts" by (cases ts) auto
    with snoc.prems have "tables_overlap t a" by auto
    with b a have "overlaps t b" using overlaps_covered by blast
    then have "cluster (ts @ [t]) = [join_band t b]"
      using b by (simp add: cluster_snoc)
    moreover have "\<forall>a \<in> set (ts @ [t]). covers (join_band t b) a"
      using b covers_join by auto
    moreover have "band.tables (join_band t b) = ts @ [t]"
      using b by (simp add: join_band_def)
    ultimately show ?thesis by blast
  qed
qed

subsection \<open>Properties of the row emission\<close>

definition band_rows_out :: "int \<Rightarrow> (int \<times> (int \<times> string) list) list \<Rightarrow> sheet_row list" where
  \<comment> \<open>the rows of a band whose first row gets the index \<open>current_row\<close>\<close>
  "band_rows_out current_row items =
     map (\<lambda>(i, r, entries). \<lparr>cells = row_cells entries, index = current_row + int i\<rparr>)
       (enumerate 0 items)"

lemma band_rows_out_Cons:
  "band_rows_out cr ((r, entries) # items)
   = \<lparr>cells = row_cells entries, index = cr\<rparr> # band_rows_out (cr + 1) items"
  by (simp add: band_rows_out_def enumerate_Suc_eq split_def apfst_def map_prod_def)

lemma length_band_rows_out [simp]: "length (band_rows_out cr items) = length items"
  by (simp add: band_rows_out_def)

lemma emit_band_eq:
  "emit_band items (sheet_rows, current_row)
   = (sheet_rows @ band_rows_out current_row items, current_row + int (length items))"
proof (induction items arbitrary: sheet_rows current_row)
  case Nil
  then show ?case by (simp add: band_rows_out_def)
next
  case (Cons it items)
  obtain r entries where it: "it = (r, entries)" by (cases it)
  show ?case unfolding it by (simp add: Cons.IH band_rows_out_Cons)
qed

lemma emit_element_Band:
  "emit_element (Band y rows) (sheet_rows, current_row)
   = (sheet_rows @ band_rows_out current_row (sort_key fst rows),
      current_row + int (length rows) + 1)"
  by (simp add: emit_band_eq)

definition ascending :: "int \<Rightarrow> int \<Rightarrow> sheet_row list \<Rightarrow> bool" where
  \<comment> \<open>strictly increasing row indices, all of them in \<open>[lo, hi)\<close>\<close>
  "ascending lo hi rows =
     (sorted_wrt (<) (map sheet_row.index rows)
      \<and> (\<forall>r \<in> set rows. lo \<le> sheet_row.index r \<and> sheet_row.index r < hi))"

lemma ascending_append:
  "ascending a b xs \<Longrightarrow> ascending b c ys \<Longrightarrow> a \<le> b \<Longrightarrow> b \<le> c \<Longrightarrow> ascending a c (xs @ ys)"
  by (fastforce simp: ascending_def sorted_wrt_append)

lemma ascending_band_rows_out: "ascending cr (cr + int (length items)) (band_rows_out cr items)"
proof (induction items arbitrary: cr)
  case Nil
  then show ?case by (simp add: ascending_def band_rows_out_def)
next
  case (Cons it items)
  obtain r entries where it: "it = (r, entries)" by (cases it)
  from Cons.IH[of "cr + 1"] show ?case
    unfolding it by (fastforce simp: band_rows_out_Cons ascending_def)
qed

lemma emit_element_ascending:
  "\<exists>new cr'. emit_element el (sheet_rows, cr) = (sheet_rows @ new, cr')
      \<and> ascending cr cr' new \<and> cr < cr'"
proof (cases el)
  case (Band y rows)
  have "ascending cr (cr + int (length rows) + 1) (band_rows_out cr (sort_key fst rows))"
    using ascending_band_rows_out[of cr "sort_key fst rows"] by (auto simp: ascending_def)
  with Band show ?thesis
    unfolding Band emit_element_Band by auto
next
  case (Line y str)
  then show ?thesis by (simp add: ascending_def)
qed

lemma foldl_emit_ascending:
  "\<exists>new cr'. foldl (\<lambda>s el. emit_element el s) (sheet_rows, cr) els = (sheet_rows @ new, cr')
      \<and> ascending cr cr' new \<and> cr \<le> cr'"
proof (induction els arbitrary: sheet_rows cr)
  case Nil
  then show ?case by (simp add: ascending_def)
next
  case (Cons el els)
  obtain n1 c1 where 1: "emit_element el (sheet_rows, cr) = (sheet_rows @ n1, c1)"
    "ascending cr c1 n1" "cr < c1"
    using emit_element_ascending by blast
  obtain n2 c2 where 2: "foldl (\<lambda>s el. emit_element el s) (sheet_rows @ n1, c1) els
      = ((sheet_rows @ n1) @ n2, c2)" "ascending c1 c2 n2" "c1 \<le> c2"
    using Cons.IH by blast
  have "ascending cr c2 (n1 @ n2)" using 1 2 by (intro ascending_append) auto
  with 1 2 show ?case by auto
qed

lemma emit_elements_ascending:
  "\<exists>new cr'. emit_elements els (sheet_rows, cr) = (sheet_rows @ new, cr')
      \<and> ascending cr cr' new \<and> cr \<le> cr'"
  unfolding emit_elements_def by (rule foldl_emit_ascending)

lemma process_pages_ascending:
  "process_pages polygon_ok contains result pgs (sheet_rows, cr) = Inr (rows', cr')
   \<Longrightarrow> \<exists>new. rows' = sheet_rows @ new \<and> ascending cr cr' new \<and> cr \<le> cr'"
proof (induction pgs arbitrary: sheet_rows cr)
  case Nil
  then show ?case by (simp add: ascending_def)
next
  case (Cons pg pgs)
  from Cons.prems obtain els where els: "page_elements polygon_ok contains result pg = Inr els"
    and rest: "process_pages polygon_ok contains result pgs (emit_elements els (sheet_rows, cr))
                 = Inr (rows', cr')"
    by (auto split: sum.splits)
  obtain n1 c1 where 1: "emit_elements els (sheet_rows, cr) = (sheet_rows @ n1, c1)"
    "ascending cr c1 n1" "cr \<le> c1"
    using emit_elements_ascending by blast
  with rest Cons.IH[of "sheet_rows @ n1" c1]
  obtain n2 where 2: "rows' = (sheet_rows @ n1) @ n2" "ascending c1 cr' n2" "c1 \<le> cr'"
    by auto
  have "ascending cr cr' (n1 @ n2)" using 1 2 by (intro ascending_append) auto
  with 1 2 show ?case by auto
qed

lemma update_values: "snd ` set (AList.update k v al) \<subseteq> insert v (snd ` set al)"
  by (induction al) auto

definition filled :: "(int \<times> (int \<times> string) list) list \<Rightarrow> bool" where
  \<comment> \<open>every row index of a band has at least one entry\<close>
  "filled rows = ([] \<notin> snd ` set rows)"

lemma filled_append_at:
  assumes "filled rows"
  shows "filled (append_at r e rows)"
proof (cases "map_of rows r")
  case None
  with assms show ?thesis by (simp add: filled_def append_at_def)
next
  case (Some es)
  have "snd ` set (AList.update r (es @ [e]) rows) \<subseteq> insert (es @ [e]) (snd ` set rows)"
    by (rule update_values)
  moreover have "[] \<notin> insert (es @ [e]) (snd ` set rows)"
    using assms by (simp add: filled_def)
  ultimately have "[] \<notin> snd ` set (AList.update r (es @ [e]) rows)" by blast
  with Some show ?thesis by (simp add: filled_def append_at_def)
qed

lemma filled_foldl:
  "(\<And>rows x. filled rows \<Longrightarrow> filled (f rows x)) \<Longrightarrow> filled rows \<Longrightarrow> filled (foldl f rows xs)"
  by (induction xs arbitrary: rows) auto

lemma filled_add_cell: "filled rows \<Longrightarrow> filled (add_cell off rows c)"
  unfolding add_cell_def by (rule filled_foldl) (auto intro: filled_append_at)

lemma filled_add_cells: "filled rows \<Longrightarrow> filled (foldl (add_cell off) rows cs)"
  by (rule filled_foldl) (auto intro: filled_add_cell)

lemma filled_collect_rows: "filled (collect_rows ts offsets)"
  unfolding collect_rows_def
proof (rule filled_foldl)
  show "filled []" by (simp add: filled_def)
next
  fix rows :: "(int \<times> (int \<times> string) list) list" and x :: "tinfo \<times> int"
  assume "filled rows"
  then show "filled (case x of (t, off) \<Rightarrow> foldl (add_cell off) rows (table.cells (table t)))"
    by (cases x) (simp add: filled_add_cells)
qed

lemma band_element_filled: "band_element b = Inr (Band y rows) \<Longrightarrow> filled rows"
  by (auto simp: band_element_def Let_def filled_collect_rows split: sum.splits)

lemma length_row_cells: "length (row_cells entries) = length entries"
  by (simp add: row_cells_def)

lemma row_cells_nonempty: "entries \<noteq> [] \<Longrightarrow> row_cells entries \<noteq> []"
  using length_row_cells[of entries] by auto

definition rect :: "rat \<Rightarrow> rat \<Rightarrow> rat \<Rightarrow> rat \<Rightarrow> point list" where
  \<comment> \<open>the corners of the rectangle from \<open>(x0, y0)\<close> to \<open>(x1, y1)\<close>\<close>
  "rect x0 y0 x1 y1 = [(x0, y0), (x1, y0), (x1, y1), (x0, y1)]"

definition one_cell_table :: "int \<Rightarrow> point list \<Rightarrow> string \<Rightarrow> table" where
  \<comment> \<open>a table on page \<open>pn\<close> with the bounding polygon \<open>pl\<close> and one cell\<close>
  "one_cell_table pn pl txt =
     \<lparr>bounding_regions = [\<lparr>region.page_number = pn, polygon = pl\<rparr>],
      cells = [\<lparr>row_index = 0, column_index = 0, column_span = 1, content = txt\<rparr>]\<rparr>"

definition text_row :: "string \<Rightarrow> int \<Rightarrow> sheet_row" where
  \<comment> \<open>the output row with the single cell \<open>txt\<close> and the row index \<open>i\<close>\<close>
  "text_row txt i = \<lparr>cells = [\<lparr>cell_value = txt, enable = True, index = 1\<rparr>], index = i\<rparr>"

definition two_page_document :: analyze_result where
  \<comment> \<open>page 1: a title, a one-cell table below it, a line below the table; page 2: a line\<close>
  "two_page_document =
     \<lparr>pages = [\<lparr>page_number = 1,
                 lines = [\<lparr>content = ''after'', polygon = rect 0 9 5 10\<rparr>,
                          \<lparr>content = '' Title '', polygon = rect 0 0 5 1\<rparr>]\<rparr>,
                \<lparr>page_number = 2, lines = [\<lparr>content = ''next page'', polygon = rect 0 0 5 1\<rparr>]\<rparr>],
      tables = [one_cell_table 1 (rect 0 2 4 5) ''A'']\<rparr>"

lemma two_page_document_rows:
  "analyze_spreadsheet_auto_merge (\<lambda>coords. 3 \<le> length coords) (\<lambda>coords pt. False)
     two_page_document
   = Inr [text_row ''Title'' 1, text_row ''A'' 2, text_row ''after'' 4, text_row ''next page'' 5]"
  by code_simp
text \<open>
  C3: the row indices of the emitted rows are strictly increasing over the whole
  document, and the counter is never reset between pages: the rows that any run of
  pages appends all carry indices from the counter's value at the start of the run on.
\<close>

theorem row_indices_strictly_increasing:
  "(analyze_spreadsheet_auto_merge polygon_ok contains result = Inr rows \<longrightarrow>
      sorted_wrt (<) (map sheet_row.index rows) \<and> (\<forall>r \<in> set rows. 1 \<le> sheet_row.index r))
   \<and> (process_pages polygon_ok contains result pgs (sheet_rows, current_row)
         = Inr (rows', current_row') \<longrightarrow>
       (\<exists>new. rows' = sheet_rows @ new \<and> sorted_wrt (<) (map sheet_row.index new)
          \<and> (\<forall>r \<in> set new. current_row \<le> sheet_row.index r \<and> sheet_row.index r < current_row')
          \<and> current_row \<le> current_row'))"
proof (intro conjI impI)
  assume "analyze_spreadsheet_auto_merge polygon_ok contains result = Inr rows"
  then obtain c where "process_pages polygon_ok contains result (analyze_result.pages result) ([], 1)
      = Inr (rows, c)"
    by (auto simp: analyze_spreadsheet_auto_merge_def split: sum.splits)
  from process_pages_ascending[OF this] have a: "ascending 1 c rows" by simp
  then show "sorted_wrt (<) (map sheet_row.index rows)" by (simp add: ascending_def)
  from a show "\<forall>r \<in> set rows. 1 \<le> sheet_row.index r" by (simp add: ascending_def)
next
  assume "process_pages polygon_ok contains result pgs (sheet_rows, current_row)
         = Inr (rows', current_row')"
  from process_pages_ascending[OF this]
  show "\<exists>new. rows' = sheet_rows @ new \<and> sorted_wrt (<) (map sheet_row.index new)
          \<and> (\<forall>r \<in> set new. current_row \<le> sheet_row.index r \<and> sheet_row.index r < current_row')
          \<and> current_row \<le> current_row'"
    by (auto simp: ascending_def)
qed

theorem row_indices_strictly_increasing_witness:
  "analyze_spreadsheet_auto_merge (\<lambda>coords. 3 \<le> length coords) (\<lambda>coords pt. False)
     two_page_document
   = Inr [text_row ''Title'' 1, text_row ''A'' 2, text_row ''after'' 4, text_row ''next page'' 5]
   \<and> sorted_wrt (<) (map sheet_row.index
        [text_row ''Title'' 1, text_row ''A'' 2, text_row ''after'' 4, text_row ''next page'' 5])"
  using row_indices_strictly_increasing
    [of "\<lambda>coords. 3 \<le> length coords" "\<lambda>coords pt. False" two_page_document
       "[text_row ''Title'' 1, text_row ''A'' 2, text_row ''after'' 4, text_row ''next page'' 5]",
     THEN conjunct1]
    two_page_document_rows
  by blast
text \<open>
  C4 (as the spec states it): after the rows of a band, one blank separator row is
  appended to the output rows. The code appends nothing there: on the two-page document
  the band (the row "A") is followed directly by the row of the next element, and only
  the index 3 is left unused.
\<close>

theorem no_blank_row_after_band:
  "analyze_spreadsheet_auto_merge (\<lambda>coords. 3 \<le> length coords) (\<lambda>coords pt. False)
     two_page_document
   = Inr [\<lparr>cells = [\<lparr>cell_value = ''Title'', enable = True, index = 1\<rparr>], index = 1\<rparr>,
          \<lparr>cells = [\<lparr>cell_value = ''A'', enable = True, index = 1\<rparr>], index = 2\<rparr>,
          \<lparr>cells = [\<lparr>cell_value = ''after'', enable = True, index = 1\<rparr>], index = 4\<rparr>,
          \<lparr>cells = [\<lparr>cell_value = ''next page'', enable = True, index = 1\<rparr>], index = 5\<rparr>]"
  using two_page_document_rows by (simp add: text_row_def)

text \<open>
  C4 (amended): a band element appends exactly one row per row index of the band (in
  ascending order of the row index, numbered from the current counter on), none of them
  without cells, and then advances the row counter by one more: one row index is left
  unused after the band, and no row record is appended for it.
\<close>

theorem band_leaves_one_index_unused:
  "emit_element (Band y rows) (sheet_rows, current_row)
     = (sheet_rows
          @ map (\<lambda>(i, r, entries). \<lparr>cells = row_cells entries, index = current_row + int i\<rparr>)
              (enumerate 0 (sort_key fst rows)),
        current_row + int (length rows) + 1)
   \<and> (band_element b = Inr (Band y' rows') \<longrightarrow>
        (\<forall>(r, entries) \<in> set rows'. row_cells entries \<noteq> []))"
proof (intro conjI impI)
  show "emit_element (Band y rows) (sheet_rows, current_row)
     = (sheet_rows
          @ map (\<lambda>(i, r, entries). \<lparr>cells = row_cells entries, index = current_row + int i\<rparr>)
              (enumerate 0 (sort_key fst rows)),
        current_row + int (length rows) + 1)"
    unfolding emit_element_Band band_rows_out_def by simp
next
  assume "band_element b = Inr (Band y' rows')"
  then have "filled rows'" by (rule band_element_filled)
  show "\<forall>(r, entries) \<in> set rows'. row_cells entries \<noteq> []"
  proof (intro ballI, clarify)
    fix r entries
    assume m: "(r, entries) \<in> set rows'" and e: "row_cells entries = []"
    from m have "entries \<in> snd ` set rows'" by force
    with \<open>filled rows'\<close> have "entries \<noteq> []" unfolding filled_def by metis
    with e row_cells_nonempty show False by blast
  qed
qed

theorem band_leaves_one_index_unused_witness:
  "emit_element (Band 2 [(1, [(0, ''c'')]), (0, [(1, ''b''), (0, ''a'')])]) ([], 7)
     = ([\<lparr>cells = [\<lparr>cell_value = ''a'', enable = True, index = 1\<rparr>,
                   \<lparr>cell_value = ''b'', enable = True, index = 2\<rparr>], index = 7\<rparr>,
         \<lparr>cells = [\<lparr>cell_value = ''c'', enable = True, index = 1\<rparr>], index = 8\<rparr>], 10)
   \<and> row_cells [(0, ''A'')] \<noteq> []"
proof -
  have 1: "emit_element (Band 2 [(1, [(0, ''c'')]), (0, [(1, ''b''), (0, ''a'')])]) ([], 7)
     = ([\<lparr>cells = [\<lparr>cell_value = ''a'', enable = True, index = 1\<rparr>,
                   \<lparr>cell_value = ''b'', enable = True, index = 2\<rparr>], index = 7\<rparr>,
         \<lparr>cells = [\<lparr>cell_value = ''c'', enable = True, index = 1\<rparr>], index = 8\<rparr>], 10)"
    using band_leaves_one_index_unused
      [of 2 "[(1, [(0, ''c'')]), (0, [(1, ''b''), (0, ''a'')])]" "[]" 7, THEN conjunct1]
    by (simp add: row_cells_def)
  define bnd where "bnd = \<lparr>tables = [\<lparr>table = one_cell_table 1 (rect 0 2 4 5) ''A'',
               poly = rect 0 2 4 5, ymin = 2, ymax = 5, xmin = 0\<rparr>], ymin = 2, ymax = 5\<rparr>"
  have b: "band_element bnd = Inr (Band 2 [(0, [(0, ''A'')])])"
    unfolding bnd_def by code_simp
  have "\<forall>(r, entries) \<in> set [(0::int, [(0::int, ''A'')])]. row_cells entries \<noteq> []"
    using band_leaves_one_index_unused
      [of 0 "[]" "[]" 0 bnd 2 "[(0, [(0, ''A'')])]", THEN conjunct2] b
    by blast
  then have 2: "row_cells [(0, ''A'')] \<noteq> []" by simp
  from 1 2 show ?thesis by simp
qed

definition strip_info :: "rat \<Rightarrow> rat \<Rightarrow> tinfo" where
  \<comment> \<open>what \<open>collect_tables\<close> records for a one-cell table over the strip from \<open>y0\<close> to \<open>y1\<close>\<close>
  "strip_info y0 y1 =
     \<lparr>table = one_cell_table 1 (rect 0 y0 1 y1) ''t'', poly = rect 0 y0 1 y1,
      ymin = y0, ymax = y1, xmin = 0\<rparr>"

lemma strip_info_collected:
  "collect_tables (\<lambda>coords. 3 \<le> length coords) 1 [one_cell_table 1 (rect 0 2 1 5) ''t''] []
   = Inr [strip_info 2 5]"
  by (simp add: one_cell_table_def rect_def strip_info_def py_min_def py_max_def Let_def)

lemma tables_overlap_sym: "tables_overlap a b = tables_overlap b a"
  by (auto simp: tables_overlap_def)

text \<open>
  C6 (as the spec states it): three mutually overlapping tables may end up in two bands
  depending on the input order. When each of three tables overlaps the two others, the
  second joins the band of the first, whose interval then still covers the first, so
  the third joins it as well: in every order the result is one band.
\<close>

theorem mutually_overlapping_tables_share_a_band:
  "\<not> (\<exists>a b c. tables_overlap a b \<and> tables_overlap a c \<and> tables_overlap b c
          \<and> length (cluster [a, b, c]) \<noteq> 1)"
proof
  assume "\<exists>a b c. tables_overlap a b \<and> tables_overlap a c \<and> tables_overlap b c
          \<and> length (cluster [a, b, c]) \<noteq> 1"
  then obtain a b c where o: "tables_overlap a b" "tables_overlap a c" "tables_overlap b c"
    and n: "length (cluster [a, b, c]) \<noteq> 1"
    by blast
  from o have 1: "overlaps b (new_band a)"
    by (auto simp: tables_overlap_def overlaps_def new_band_def)
  from o have 2: "overlaps c (join_band b (new_band a))"
    by (auto simp: tables_overlap_def overlaps_def new_band_def join_band_def)
  from 1 2 have "cluster [a, b, c] = [join_band c (join_band b (new_band a))]"
    by (simp add: cluster_def)
  with n show False by simp
qed

text \<open>
  C6 (amended): band clustering is a single pass over the tables in input order; each
  table joins the first existing band whose interval overlaps its own (touching
  included), that band's interval becoming the union of the two, and a new band is
  appended when no band overlaps. The result depends on the input order and is not
  transitively closed: three tables linked by a chain of overlaps (the strips 0-1, 1-2
  and 2-3) end up in two bands in the order first, third, second and in one band in the
  order first, second, third. Tables that all overlap one another always share one band.
\<close>

theorem cluster_joins_first_overlapping_band:
  "cluster [] = []
   \<and> cluster (ts @ [t]) = place t (cluster ts)
   \<and> overlaps t b = (band.ymin b \<le> tinfo.ymax t \<and> tinfo.ymin t \<le> band.ymax b)
   \<and> ((\<forall>b \<in> set bs. \<not> overlaps t b) \<longrightarrow>
        place t bs = bs @ [\<lparr>tables = [t], ymin = tinfo.ymin t, ymax = tinfo.ymax t\<rparr>])
   \<and> (i < length bs \<and> overlaps t (bs ! i) \<and> (\<forall>j < i. \<not> overlaps t (bs ! j)) \<longrightarrow>
        place t bs = bs[i := \<lparr>tables = band.tables (bs ! i) @ [t],
                               ymin = min (band.ymin (bs ! i)) (tinfo.ymin t),
                               ymax = max (band.ymax (bs ! i)) (tinfo.ymax t)\<rparr>])
   \<and> length (cluster [strip_info 0 1, strip_info 2 3, strip_info 1 2]) = 2
   \<and> length (cluster [strip_info 0 1, strip_info 1 2, strip_info 2 3]) = 1
   \<and> (us \<noteq> [] \<and> (\<forall>a \<in> set us. \<forall>b \<in> set us. tables_overlap a b) \<longrightarrow>
        length (cluster us) = 1)"
proof (intro conjI impI)
  show "cluster [] = []" by (simp add: cluster_def)
  show "cluster (ts @ [t]) = place t (cluster ts)" by (rule cluster_snoc)
  show "overlaps t b = (band.ymin b \<le> tinfo.ymax t \<and> tinfo.ymin t \<le> band.ymax b)"
    by (auto simp: overlaps_def)
  show "length (cluster [strip_info 0 1, strip_info 2 3, strip_info 1 2]) = 2"
    by (simp add: cluster_def strip_info_def overlaps_def new_band_def join_band_def)
  show "length (cluster [strip_info 0 1, strip_info 1 2, strip_info 2 3]) = 1"
    by (simp add: cluster_def strip_info_def overlaps_def new_band_def join_band_def)
next
  assume "\<forall>b \<in> set bs. \<not> overlaps t b"
  then show "place t bs = bs @ [\<lparr>tables = [t], ymin = tinfo.ymin t, ymax = tinfo.ymax t\<rparr>]"
    by (simp add: place_no_overlap new_band_def)
next
  assume "i < length bs \<and> overlaps t (bs ! i) \<and> (\<forall>j < i. \<not> overlaps t (bs ! j))"
  then have "place t bs = bs[i := join_band t (bs ! i)]"
    by (intro place_first_overlap) auto
  then show "place t bs = bs[i := \<lparr>tables = band.tables (bs ! i) @ [t],
                               ymin = min (band.ymin (bs ! i)) (tinfo.ymin t),
                               ymax = max (band.ymax (bs ! i)) (tinfo.ymax t)\<rparr>]"
    by (simp add: join_band_def)
next
  assume "us \<noteq> [] \<and> (\<forall>a \<in> set us. \<forall>b \<in> set us. tables_overlap a b)"
  then obtain b where "cluster us = [b]"
    using cluster_pairwise_one_band[of us] by blast
  then show "length (cluster us) = 1" by simp
qed

theorem cluster_joins_first_overlapping_band_witness:
  "place (strip_info 4 5) [new_band (strip_info 0 1)]
     = [new_band (strip_info 0 1), \<lparr>tables = [strip_info 4 5], ymin = 4, ymax = 5\<rparr>]
   \<and> place (strip_info 1 2) [new_band (strip_info 4 5), new_band (strip_info 0 1)]
     = [new_band (strip_info 4 5),
        \<lparr>tables = [strip_info 0 1, strip_info 1 2], ymin = 0, ymax = 2\<rparr>]
   \<and> length (cluster [strip_info 0 2, strip_info 2 4, strip_info 1 3]) = 1"
proof -
  have 1: "place (strip_info 4 5) [new_band (strip_info 0 1)]
     = [new_band (strip_info 0 1), \<lparr>tables = [strip_info 4 5], ymin = 4, ymax = 5\<rparr>]"
    using cluster_joins_first_overlapping_band
      [of "[]" "strip_info 4 5" "new_band (strip_info 0 1)" "[new_band (strip_info 0 1)]" 0 "[]",
       THEN conjunct2, THEN conjunct2, THEN conjunct2, THEN conjunct1]
    by (simp add: overlaps_def strip_info_def new_band_def)
  have 2: "place (strip_info 1 2) [new_band (strip_info 4 5), new_band (strip_info 0 1)]
     = [new_band (strip_info 4 5),
        \<lparr>tables = [strip_info 0 1, strip_info 1 2], ymin = 0, ymax = 2\<rparr>]"
    using cluster_joins_first_overlapping_band
      [of "[]" "strip_info 1 2" "new_band (strip_info 0 1)"
          "[new_band (strip_info 4 5), new_band (strip_info 0 1)]" 1 "[]",
       THEN conjunct2, THEN conjunct2, THEN conjunct2, THEN conjunct2, THEN conjunct1]
    by (simp add: overlaps_def strip_info_def new_band_def)
  have 3: "length (cluster [strip_info 0 2, strip_info 2 4, strip_info 1 3]) = 1"
    using cluster_joins_first_overlapping_band
      [of "[]" "strip_info 1 2" "new_band (strip_info 0 1)" "[]" 0
          "[strip_info 0 2, strip_info 2 4, strip_info 1 3]",
       THEN conjunct2, THEN conjunct2, THEN conjunct2, THEN conjunct2, THEN conjunct2,
       THEN conjunct2, THEN conjunct2]
    by (simp add: tables_overlap_def strip_info_def)
  from 1 2 3 show ?thesis by simp
qed

subsection \<open>Text lines and table polygons\<close>


























section \<open>Topic resolver (\<open>actions.ActionSearchByTopicOrPage.by_topic\<close>)\<close>

subsection \<open>Normalising a key\<close>

function dot_groups :: "string \<Rightarrow> string" where
  \<comment> \<open>what is left after the longest run of \<open>(\.\d+)\<close> groups at the front\<close>
  "dot_groups s =
     (case s of
        c # d # rest \<Rightarrow>
          if c = CHR ''.'' \<and> re_digit d then dot_groups (dropWhile re_digit rest) else s
      | _ \<Rightarrow> s)"
  by pat_completeness auto
termination
proof (relation "measure length", goal_cases)
  case 1
  show ?case by simp
next
  case (2 s c cs d rest)
  have "length (dropWhile re_digit rest) \<le> length rest" by (rule length_dropWhile_le)
  with 2 show ?case by simp
qed

declare dot_groups.simps [simp del]

definition strip_heading_prefix :: "string \<Rightarrow> string" where
  \<comment> \<open>\<open>re.sub(r"^\d+(\.\d+)*\s*", "", key)\<close>: the pattern matches only at the start, and
      only when the key starts with a digit\<close>
  "strip_heading_prefix key =
     (case key of
        [] \<Rightarrow> key
      | c # cs \<Rightarrow>
          if re_digit c then dropWhile py_isspace (dot_groups (dropWhile re_digit key)) else key)"

definition clean_topic_key :: "string \<Rightarrow> string" where
  "clean_topic_key key = py_lower (py_strip (strip_heading_prefix key))"

subsection \<open>The similarity ratios of \<open>difflib.SequenceMatcher\<close>\<close>

text \<open>
  \<open>get_close_matches\<close> compares the word \<open>b\<close> (its \<open>seq2\<close>) with each candidate \<open>a\<close>
  (\<open>seq1\<close>), with no junk function. A ratio is \<open>2.0 * matches / (len(a) + len(b))\<close>, here
  an exact rational: the float agrees with it in every comparison made below for strings
  of realistic length.
\<close>

definition calculate_ratio :: "nat \<Rightarrow> nat \<Rightarrow> rat" where
  \<comment> \<open>\<open>_calculate_ratio(matches, length)\<close>\<close>
  "calculate_ratio matches len = (if len \<noteq> 0 then 2 * of_nat matches / of_nat len else 1)"

definition real_quick_ratio :: "string \<Rightarrow> string \<Rightarrow> rat" where
  "real_quick_ratio a b = calculate_ratio (min (length a) (length b)) (length a + length b)"

fun quick_matches :: "string \<Rightarrow> (char \<Rightarrow> int) \<Rightarrow> nat" where
  \<comment> \<open>the loop of \<open>quick_ratio\<close>: \<open>avail\<close> counts how often a character of \<open>b\<close> is
      still available\<close>
  "quick_matches [] avail = 0"
| "quick_matches (elt # rest) avail =
     (if avail elt > 0 then 1 else 0) + quick_matches rest (avail(elt := avail elt - 1))"

definition quick_ratio :: "string \<Rightarrow> string \<Rightarrow> rat" where
  "quick_ratio a b =
     calculate_ratio (quick_matches a (\<lambda>c. int (count_list b c))) (length a + length b)"

definition popular :: "string \<Rightarrow> char \<Rightarrow> bool" where
  \<comment> \<open>the automatic junk heuristic: in a \<open>b\<close> of 200 or more characters, a character that
      occurs more than \<open>len(b) // 100 + 1\<close> times\<close>
  "popular b c = (length b \<ge> 200 \<and> count_list b c > length b div 100 + 1)"

definition b2j :: "string \<Rightarrow> char \<Rightarrow> nat list" where
  \<comment> \<open>\<open>b2j.get(c, [])\<close>: the positions of \<open>c\<close> in \<open>b\<close>, ascending; none for a popular one\<close>
  "b2j b c = (if popular b c then [] else filter (\<lambda>j. b ! j = c) [0 ..< length b])"

type_synonym match = "nat \<times> nat \<times> nat"

fun dp_row ::
  "nat \<Rightarrow> nat \<Rightarrow> nat \<Rightarrow> nat list \<Rightarrow> (nat \<Rightarrow> nat) \<Rightarrow> match \<times> (nat \<Rightarrow> nat) \<Rightarrow> match \<times> (nat \<Rightarrow> nat)"
where
  \<comment> \<open>\<open>for j in b2j.get(a[i], nothing)\<close>, with \<open>(besti, bestj, bestsize)\<close> and \<open>newj2len\<close>;
      a missing key of \<open>j2len\<close> is the value 0\<close>
  "dp_row i blo bhi [] j2len st = st"
| "dp_row i blo bhi (j # js) j2len (best, newj2len) =
     (if j < blo then dp_row i blo bhi js j2len (best, newj2len)
      else if j \<ge> bhi then (best, newj2len)
      else
        (let k = (if j = 0 then 0 else j2len (j - 1)) + 1
         in dp_row i blo bhi js j2len
              (if k > snd (snd best) then (i + 1 - k, j + 1 - k, k) else best,
               newj2len(j := k))))"

fun dp_rows ::
  "string \<Rightarrow> string \<Rightarrow> nat \<Rightarrow> nat \<Rightarrow> nat list \<Rightarrow> match \<times> (nat \<Rightarrow> nat) \<Rightarrow> match"
where
  \<comment> \<open>\<open>for i in range(alo, ahi)\<close>, over the remaining indices\<close>
  "dp_rows a b blo bhi [] (best, j2len) = best"
| "dp_rows a b blo bhi (i # rest) (best, j2len) =
     dp_rows a b blo bhi rest (dp_row i blo bhi (b2j b (a ! i)) j2len (best, \<lambda>j. 0))"

function extend_left :: "string \<Rightarrow> string \<Rightarrow> nat \<Rightarrow> nat \<Rightarrow> match \<Rightarrow> match" where
  \<comment> \<open>the first \<open>while\<close> after the search\<close>
  "extend_left a b alo blo (besti, bestj, bestsize) =
     (if besti > alo \<and> bestj > blo \<and> a ! (besti - 1) = b ! (bestj - 1)
      then extend_left a b alo blo (besti - 1, bestj - 1, bestsize + 1)
      else (besti, bestj, bestsize))"
  by pat_completeness auto
termination
  by (relation "measure (\<lambda>(a, b, alo, blo, besti, bestj, bestsize). besti)") auto

function extend_right :: "string \<Rightarrow> string \<Rightarrow> nat \<Rightarrow> nat \<Rightarrow> match \<Rightarrow> match" where
  \<comment> \<open>the second \<open>while\<close>\<close>
  "extend_right a b ahi bhi (besti, bestj, bestsize) =
     (if besti + bestsize < ahi \<and> bestj + bestsize < bhi
         \<and> a ! (besti + bestsize) = b ! (bestj + bestsize)
      then extend_right a b ahi bhi (besti, bestj, bestsize + 1)
      else (besti, bestj, bestsize))"
  by pat_completeness auto
termination
  by (relation "measure (\<lambda>(a, b, ahi, bhi, besti, bestj, bestsize). ahi - (besti + bestsize))")
    auto

declare extend_left.simps [simp del] extend_right.simps [simp del]

definition find_longest_match :: "string \<Rightarrow> string \<Rightarrow> nat \<Rightarrow> nat \<Rightarrow> nat \<Rightarrow> nat \<Rightarrow> match" where
  \<comment> \<open>with no junk the two loops over junk do nothing\<close>
  "find_longest_match a b alo ahi blo bhi =
     extend_right a b ahi bhi
       (extend_left a b alo blo
          (dp_rows a b blo bhi [alo ..< ahi] ((alo, blo, 0), \<lambda>j. 0)))"

subsection \<open>Where the longest match lies\<close>

definition in_range :: "nat \<Rightarrow> nat \<Rightarrow> match \<Rightarrow> bool" where
  \<comment> \<open>the block of \<open>a\<close> lies between \<open>alo\<close> and \<open>hi\<close>\<close>
  "in_range alo hi m = (case m of (i, j, k) \<Rightarrow> alo \<le> i \<and> i + k \<le> hi)"

lemma dp_row_bounds:
  assumes "\<forall>j. j2len j \<le> i - alo" and "alo \<le> i"
    and "in_range alo (i + 1) best" and "\<forall>j. new j \<le> i + 1 - alo"
    and "dp_row i blo bhi js j2len (best, new) = (best', new')"
  shows "in_range alo (i + 1) best' \<and> (\<forall>j. new' j \<le> i + 1 - alo)"
  using assms(3-5)
proof (induction js arbitrary: best new)
  case Nil
  then show ?case by simp
next
  case (Cons j js)
  show ?case
  proof (cases "j < blo")
    case True
    with Cons show ?thesis by simp
  next
    case nlo: False
    show ?thesis
    proof (cases "j \<ge> bhi")
      case True
      with nlo Cons.prems show ?thesis by simp
    next
      case False
      define k where "k = (if j = 0 then 0 else j2len (j - 1)) + 1"
      have "j2len (j - 1) \<le> i - alo" using assms(1) by blast
      with assms(2) have "j2len (j - 1) + 1 \<le> i + 1 - alo" by linarith
      moreover have "(0::nat) + 1 \<le> i + 1 - alo" using assms(2) by linarith
      ultimately have k: "k \<le> i + 1 - alo" "1 \<le> k"
        by (auto simp: k_def)
      let ?best = "if k > snd (snd best) then (i + 1 - k, j + 1 - k, k) else best"
      have b: "in_range alo (i + 1) ?best"
        using k assms(2) Cons.prems(1) by (auto simp: in_range_def)
      have n: "\<forall>x. (new(j := k)) x \<le> i + 1 - alo"
        using k Cons.prems(2) by auto
      have step: "dp_row i blo bhi (j # js) j2len (best, new)
          = dp_row i blo bhi js j2len (?best, new(j := k))"
        unfolding k_def using nlo False by (simp add: Let_def)
      have "dp_row i blo bhi js j2len (?best, new(j := k)) = (best', new')"
        using Cons.prems(3) unfolding step .
      from Cons.IH[OF b n this] show ?thesis .
    qed
  qed
qed

lemma dp_rows_bounds:
  assumes "\<forall>j. j2len j \<le> i - alo" and "alo \<le> i" and "in_range alo i best" and "i \<le> ahi"
  shows "in_range alo ahi (dp_rows a b blo bhi [i ..< ahi] (best, j2len))"
  using assms
proof (induction "ahi - i" arbitrary: i best j2len)
  case 0
  then show ?case by simp
next
  case (Suc d)
  then have lt: "i < ahi" by simp
  obtain best' new' where r:
    "dp_row i blo bhi (b2j b (a ! i)) j2len (best, \<lambda>j. 0) = (best', new')"
    by (cases "dp_row i blo bhi (b2j b (a ! i)) j2len (best, \<lambda>j. 0)")
  have "in_range alo (i + 1) best" using Suc.prems(3) by (auto simp: in_range_def)
  from dp_row_bounds[OF Suc.prems(1,2) this _ r]
  have b: "in_range alo (i + 1) best'" and n: "\<forall>j. new' j \<le> i + 1 - alo" by auto
  have "in_range alo ahi (dp_rows a b blo bhi [i + 1 ..< ahi] (best', new'))"
    using Suc.hyps(2) Suc.prems(2) lt b n by (intro Suc.hyps(1)) auto
  with lt r show ?case by (simp add: upt_conv_Cons)
qed

lemma extend_left_bounds:
  "in_range alo ahi m \<Longrightarrow> in_range alo ahi (extend_left a b alo blo m)"
proof (induction a b alo blo m rule: extend_left.induct)
  case (1 a b alo blo besti bestj bestsize)
  show ?case
  proof (cases "besti > alo \<and> bestj > blo \<and> a ! (besti - 1) = b ! (bestj - 1)")
    case True
    with 1 show ?thesis
      by (subst extend_left.simps) (auto simp: in_range_def)
  next
    case False
    with 1(2) show ?thesis by (subst extend_left.simps) auto
  qed
qed

lemma extend_right_bounds:
  "in_range alo ahi m \<Longrightarrow> in_range alo ahi (extend_right a b ahi bhi m)"
proof (induction a b ahi bhi m rule: extend_right.induct)
  case (1 a b ahi bhi besti bestj bestsize)
  show ?case
  proof (cases "besti + bestsize < ahi \<and> bestj + bestsize < bhi
         \<and> a ! (besti + bestsize) = b ! (bestj + bestsize)")
    case True
    with 1 show ?thesis
      by (subst extend_right.simps) (auto simp: in_range_def)
  next
    case False
    with 1(2) show ?thesis by (subst extend_right.simps) auto
  qed
qed

lemma find_longest_match_empty:
  "ahi \<le> alo \<Longrightarrow> find_longest_match a b alo ahi blo bhi = (alo, blo, 0)"
  by (simp add: find_longest_match_def extend_left.simps extend_right.simps)

lemma find_longest_match_bounds:
  assumes "find_longest_match a b alo ahi blo bhi = (i, j, k)" and "k \<noteq> 0"
  shows "alo \<le> i \<and> i + k \<le> ahi"
proof (cases "ahi \<le> alo")
  case True
  with assms find_longest_match_empty[OF True] show ?thesis by simp
next
  case False
  then have "in_range alo ahi (dp_rows a b blo bhi [alo ..< ahi] ((alo, blo, 0), \<lambda>j. 0))"
    by (intro dp_rows_bounds) (auto simp: in_range_def)
  then have "in_range alo ahi (find_longest_match a b alo ahi blo bhi)"
    unfolding find_longest_match_def by (intro extend_right_bounds extend_left_bounds)
  with assms show ?thesis by (simp add: in_range_def)
qed

subsection \<open>The ratio, the close matches and the resolver\<close>

function matched :: "string \<Rightarrow> string \<Rightarrow> nat \<Rightarrow> nat \<Rightarrow> nat \<Rightarrow> nat \<Rightarrow> nat" where
  \<comment> \<open>the sum of the sizes of the blocks \<open>get_matching_blocks\<close> finds in \<open>a[alo:ahi]\<close> and
      \<open>b[blo:bhi]\<close>: the longest match, then the same to its left and to its right\<close>
  "matched a b alo ahi blo bhi =
     (case find_longest_match a b alo ahi blo bhi of
        (i, j, k) \<Rightarrow>
          if k = 0 then 0
          else k + (if alo < i \<and> blo < j then matched a b alo i blo j else 0)
                 + (if i + k < ahi \<and> j + k < bhi then matched a b (i + k) ahi (j + k) bhi else 0))"
  by pat_completeness auto
termination
proof (relation "measure (\<lambda>(a, b, alo, ahi, blo, bhi). ahi - alo)", goal_cases)
  case 1
  show ?case by simp
next
  case (2 a b alo ahi blo bhi i jk j k)
  then have "find_longest_match a b alo ahi blo bhi = (i, j, k)" by simp
  from find_longest_match_bounds[OF this] 2 show ?case by auto
next
  case (3 a b alo ahi blo bhi i jk j k)
  then have "find_longest_match a b alo ahi blo bhi = (i, j, k)" by simp
  from find_longest_match_bounds[OF this] 3 show ?case by auto
qed

declare matched.simps [simp del]

definition ratio :: "string \<Rightarrow> string \<Rightarrow> rat" where
  "ratio a b = calculate_ratio (matched a b 0 (length a) 0 (length b)) (length a + length b)"

definition passes_cutoff :: "rat \<Rightarrow> string \<Rightarrow> string \<Rightarrow> bool" where
  \<comment> \<open>the three tests of \<open>get_close_matches\<close> for the candidate \<open>x\<close> and the word\<close>
  "passes_cutoff cutoff word x =
     (real_quick_ratio x word \<ge> cutoff \<and> quick_ratio x word \<ge> cutoff \<and> ratio x word \<ge> cutoff)"

fun close_scores :: "rat \<Rightarrow> string \<Rightarrow> string list \<Rightarrow> (rat \<times> string) list \<Rightarrow> (rat \<times> string) list" where
  \<comment> \<open>\<open>for x in possibilities: ... result.append((s.ratio(), x))\<close>\<close>
  "close_scores cutoff word [] result = result"
| "close_scores cutoff word (x # rest) result =
     (if passes_cutoff cutoff word x
      then close_scores cutoff word rest (result @ [(ratio x word, x)])
      else close_scores cutoff word rest result)"

fun largest :: "(rat \<times> string) list \<Rightarrow> (rat \<times> string) option" where
  \<comment> \<open>\<open>heapq.nlargest(1, result)\<close>, which is \<open>max\<close> with a default: tuples compare by the
      score, then by the string (code point by code point); the first maximum is kept\<close>
  "largest [] = None"
| "largest (p # ps) = Some (foldl (\<lambda>best q. if q > best then q else best) p ps)"

definition get_close_matches :: "string \<Rightarrow> string list \<Rightarrow> rat \<Rightarrow> string list" where
  \<comment> \<open>\<open>difflib.get_close_matches(word, possibilities, n=1, cutoff)\<close>\<close>
  "get_close_matches word possibilities cutoff =
     (case largest (close_scores cutoff word possibilities []) of
        None \<Rightarrow> []
      | Some (score, x) \<Rightarrow> [x])"

datatype resolution = Found string int "int option" | NotFound

definition cleaned_dict :: "topic_map \<Rightarrow> (string \<times> string) list" where
  \<comment> \<open>\<open>{self.clean_topic_key(k): k for k in topic_map}\<close>: a later key with the same
      cleaned form replaces the value and keeps the place\<close>
  "cleaned_dict topic_map =
     foldl (\<lambda>d k. AList.update (clean_topic_key k) k d) [] (map fst topic_map)"

definition topic_range :: "topic_map \<Rightarrow> string \<Rightarrow> py_error + resolution" where
  \<comment> \<open>\<open>s, e = topic_map[real]\<close>; the text the function returns is made of \<open>real\<close>, \<open>s\<close>,
      \<open>e\<close> and the text of those pages\<close>
  "topic_range topic_map real_key =
     (case map_of topic_map real_key of
        None \<Rightarrow> Inl KeyError
      | Some (s, e) \<Rightarrow> Inr (Found real_key s e))"

definition by_topic :: "string \<Rightarrow> topic_map \<Rightarrow> py_error + resolution" where
  "by_topic topic topic_map =
     (let cleaned = cleaned_dict topic_map;
          tl = py_strip (py_lower topic)
      in case map_of cleaned tl of
           Some real_key \<Rightarrow> topic_range topic_map real_key
         | None \<Rightarrow>
             (case get_close_matches tl (map fst cleaned) (6 / 10) of
                [] \<Rightarrow> Inr NotFound
              | m # _ \<Rightarrow>
                  (case map_of cleaned m of
                     None \<Rightarrow> Inl KeyError
                   | Some real_key \<Rightarrow> topic_range topic_map real_key)))"

subsection \<open>Properties of the resolver\<close>

lemma cleaned_keys_snoc:
  "foldl (\<lambda>d k. AList.update (clean_topic_key k) k d) [] (ks @ [k])
   = AList.update (clean_topic_key k) k
       (foldl (\<lambda>d k. AList.update (clean_topic_key k) k d) [] ks)"
  by simp

lemma cleaned_keys_lookup:
  "map_of (foldl (\<lambda>d k. AList.update (clean_topic_key k) k d) [] ks) n
   = (if filter (\<lambda>k. clean_topic_key k = n) ks = [] then None
      else Some (last (filter (\<lambda>k. clean_topic_key k = n) ks)))"
proof (induction ks rule: rev_induct)
  case Nil
  then show ?case by simp
next
  case (snoc k ks)
  show ?case
  proof (cases "clean_topic_key k = n")
    case True
    then show ?thesis
      unfolding cleaned_keys_snoc by (simp add: update_conv')
  next
    case False
    with snoc show ?thesis
      unfolding cleaned_keys_snoc by (simp add: update_conv')
  qed
qed

lemma cleaned_dict_lookup:
  "map_of (cleaned_dict topic_map) n
   = (if filter (\<lambda>k. clean_topic_key k = n) (map fst topic_map) = [] then None
      else Some (last (filter (\<lambda>k. clean_topic_key k = n) (map fst topic_map))))"
  unfolding cleaned_dict_def by (rule cleaned_keys_lookup)

lemma cleaned_dict_value:
  assumes "map_of (cleaned_dict topic_map) n = Some k"
  shows "k \<in> fst ` set topic_map \<and> clean_topic_key k = n"
proof -
  let ?f = "filter (\<lambda>k. clean_topic_key k = n) (map fst topic_map)"
  from assms have ne: "?f \<noteq> []" and k: "k = last ?f"
    by (auto simp: cleaned_dict_lookup split: if_splits)
  then have "k \<in> set ?f" using last_in_set by blast
  then show ?thesis by auto
qed

lemma cleaned_dict_keys: "fst ` set (cleaned_dict topic_map) = clean_topic_key ` fst ` set topic_map"
proof -
  have "fst ` set (foldl (\<lambda>d k. AList.update (clean_topic_key k) k d) [] ks)
      = clean_topic_key ` set ks" for ks
  proof (induction ks rule: rev_induct)
    case Nil
    then show ?case by simp
  next
    case (snoc k ks)
    then show ?case unfolding cleaned_keys_snoc by (simp add: dom_update)
  qed
  from this[of "map fst topic_map"] show ?thesis by (simp add: cleaned_dict_def)
qed

lemma topic_range_found:
  "map_of topic_map k = Some (s, e) \<Longrightarrow> topic_range topic_map k = Inr (Found k s e)"
  by (simp add: topic_range_def)

lemma topic_range_key:
  "k \<in> fst ` set topic_map \<Longrightarrow> \<exists>s e. topic_range topic_map k = Inr (Found k s e)"
proof -
  assume "k \<in> fst ` set topic_map"
  then obtain v where "map_of topic_map k = Some v"
    by (metis domD dom_map_of_conv_image_fst)
  then show ?thesis by (cases v) (simp add: topic_range_def)
qed

lemma close_scores_eq:
  "close_scores cutoff word xs result
   = result @ map (\<lambda>x. (ratio x word, x)) (filter (passes_cutoff cutoff word) xs)"
  by (induction xs arbitrary: result) auto

lemma largest_Max: "largest (p # ps) = Some (Max (set (p # ps)))"
proof -
  have "(\<lambda>best q. if q > best then q else best) = (\<lambda>(best :: rat \<times> string) q. max q best)"
    by (auto simp: fun_eq_iff max_def)
  then have "foldl (\<lambda>best q. if q > best then q else best) p ps = fold max ps p"
    by (simp add: foldl_conv_fold)
  then show ?thesis using Max.set_eq_fold[of p ps] by simp
qed

lemma get_close_matches_none:
  "(\<forall>x \<in> set xs. \<not> passes_cutoff cutoff word x) \<Longrightarrow> get_close_matches word xs cutoff = []"
proof -
  assume "\<forall>x \<in> set xs. \<not> passes_cutoff cutoff word x"
  then have "filter (passes_cutoff cutoff word) xs = []" by (simp add: filter_empty_conv)
  then show ?thesis by (simp add: get_close_matches_def close_scores_eq)
qed

lemma get_close_matches_best:
  assumes "x \<in> set xs" and "passes_cutoff cutoff word x"
    and "\<forall>y \<in> set xs. passes_cutoff cutoff word y \<longrightarrow> (ratio y word, y) \<le> (ratio x word, x)"
  shows "get_close_matches word xs cutoff = [x]"
proof -
  let ?sc = "map (\<lambda>x. (ratio x word, x)) (filter (passes_cutoff cutoff word) xs)"
  from assms(1,2) have mem: "(ratio x word, x) \<in> set ?sc" by auto
  then obtain p ps where sc: "?sc = p # ps" by (cases ?sc) auto
  have "Max (set ?sc) = (ratio x word, x)"
  proof (rule Max_eqI)
    show "finite (set ?sc)" by simp
    show "(ratio x word, x) \<in> set ?sc" by (rule mem)
    fix q assume "q \<in> set ?sc"
    then obtain y where "y \<in> set xs" "passes_cutoff cutoff word y" "q = (ratio y word, y)"
      by auto
    with assms(3) show "q \<le> (ratio x word, x)" by blast
  qed
  with sc have "largest ?sc = Some (ratio x word, x)" using largest_Max[of p ps] by simp
  then show ?thesis by (simp add: get_close_matches_def close_scores_eq)
qed

lemma get_close_matches_member:
  "get_close_matches word xs cutoff = m # ms \<Longrightarrow> m \<in> set xs \<and> passes_cutoff cutoff word m"
proof -
  let ?sc = "map (\<lambda>x. (ratio x word, x)) (filter (passes_cutoff cutoff word) xs)"
  assume a: "get_close_matches word xs cutoff = m # ms"
  then obtain p ps where sc: "?sc = p # ps"
    by (cases ?sc) (auto simp: get_close_matches_def close_scores_eq)
  have "Max (set ?sc) \<in> set ?sc" using sc by (intro Max_in) auto
  moreover from a sc have "snd (Max (set ?sc)) = m"
    using largest_Max[of p ps]
    by (auto simp: get_close_matches_def close_scores_eq split: prod.splits)
  ultimately show ?thesis by auto
qed

lemma by_topic_exact:
  "map_of (cleaned_dict topic_map) (py_strip (py_lower topic)) = Some k
   \<Longrightarrow> by_topic topic topic_map = topic_range topic_map k"
  by (simp add: by_topic_def Let_def)

lemma by_topic_results:
  "by_topic topic topic_map = Inr NotFound
   \<or> (\<exists>n k s e. map_of (cleaned_dict topic_map) n = Some k
         \<and> by_topic topic topic_map = Inr (Found k s e))"
proof -
  let ?c = "cleaned_dict topic_map"
  have found: "\<exists>n k' s e. map_of ?c n = Some k' \<and> topic_range topic_map k = Inr (Found k' s e)"
    if "map_of ?c n = Some k" for n k
    using topic_range_key[of k topic_map] cleaned_dict_value[OF that] that by blast
  show ?thesis
  proof (cases "map_of ?c (py_strip (py_lower topic))")
    case (Some k)
    with found[OF Some] show ?thesis by (simp add: by_topic_def Let_def)
  next
    case None
    show ?thesis
    proof (cases "get_close_matches (py_strip (py_lower topic)) (map fst ?c) (6 / 10)")
      case Nil
      with None show ?thesis by (simp add: by_topic_def Let_def)
    next
      case (Cons m ms)
      from get_close_matches_member[OF Cons] have "m \<in> fst ` set ?c" by simp
      then obtain k where k: "map_of ?c m = Some k"
        by (metis domD dom_map_of_conv_image_fst)
      with found[OF k] None Cons show ?thesis by (simp add: by_topic_def Let_def)
    qed
  qed
qed

subsection \<open>The ratio is the smallest of the three ratios\<close>

definition block_ok :: "string \<Rightarrow> string \<Rightarrow> nat \<Rightarrow> nat \<Rightarrow> nat \<Rightarrow> nat \<Rightarrow> match \<Rightarrow> bool" where
  \<comment> \<open>a block inside \<open>a[alo:ahi]\<close> and \<open>b[blo:bhi]\<close> on which the two strings agree\<close>
  "block_ok a b alo ahi blo bhi m =
     (case m of (i, j, k) \<Rightarrow>
        alo \<le> i \<and> i + k \<le> ahi \<and> blo \<le> j \<and> j + k \<le> bhi
        \<and> (\<forall>t < k. a ! (i + t) = b ! (j + t)))"

definition runs_ok :: "string \<Rightarrow> string \<Rightarrow> nat \<Rightarrow> nat \<Rightarrow> nat \<Rightarrow> nat \<Rightarrow> (nat \<Rightarrow> nat) \<Rightarrow> bool" where
  \<comment> \<open>\<open>j2len\<close> before row \<open>i\<close>: \<open>j2len j\<close> characters ending at \<open>a[i - 1]\<close> and \<open>b[j]\<close> agree\<close>
  "runs_ok a b alo blo bhi i j2len =
     (\<forall>j. j2len j \<le> i - alo \<and> j2len j \<le> j + 1 - blo \<and> (j2len j > 0 \<longrightarrow> j < bhi)
          \<and> (\<forall>t < j2len j. a ! (i - 1 - t) = b ! (j - t)))"

lemma b2j_member: "j \<in> set (b2j b c) \<Longrightarrow> j < length b \<and> b ! j = c"
  by (auto simp: b2j_def split: if_splits)

lemma dp_row_ok:
  assumes prev: "runs_ok a b alo blo bhi i j2len" and i: "alo \<le> i"
    and js: "\<forall>j \<in> set js. b ! j = a ! i"
    and best: "block_ok a b alo (i + 1) blo bhi best"
    and new: "runs_ok a b alo blo bhi (i + 1) new"
    and res: "dp_row i blo bhi js j2len (best, new) = (best', new')"
  shows "block_ok a b alo (i + 1) blo bhi best' \<and> runs_ok a b alo blo bhi (i + 1) new'"
  using js best new res
proof (induction js arbitrary: best new)
  case Nil
  then show ?case by simp
next
  case (Cons j js)
  show ?case
  proof (cases "j < blo")
    case True
    with Cons show ?thesis by simp
  next
    case nlo: False
    show ?thesis
    proof (cases "j \<ge> bhi")
      case True
      with nlo Cons.prems show ?thesis by simp
    next
      case False
      define p where "p = (if j = 0 then 0 else j2len (j - 1))"
      define k where "k = p + 1"
      have bj: "b ! j = a ! i" using Cons.prems(1) by simp
      have p1: "p \<le> i - alo" using prev by (auto simp: p_def runs_ok_def)
      have p2: "p \<le> j - blo"
      proof (cases "j = 0")
        case True
        then show ?thesis by (simp add: p_def)
      next
        case False
        from prev have "j2len (j - 1) \<le> (j - 1) + 1 - blo" unfolding runs_ok_def by blast
        with False show ?thesis by (simp add: p_def)
      qed
      have p3: "a ! (i - 1 - t) = b ! (j - 1 - t)" if "t < p" for t
      proof -
        from that have j0: "j \<noteq> 0" and t: "t < j2len (j - 1)" by (auto simp: p_def split: if_splits)
        from prev t have "a ! (i - 1 - t) = b ! ((j - 1) - t)" unfolding runs_ok_def by blast
        then show ?thesis .
      qed
      have agree: "a ! (i - t) = b ! (j - t)" if "t < k" for t
      proof (cases t)
        case 0
        with bj show ?thesis by simp
      next
        case (Suc u)
        with that have "u < p" by (simp add: k_def)
        from p3[OF this] Suc show ?thesis by simp
      qed
      have ki: "k \<le> i + 1 - alo" using p1 i by (simp add: k_def)
      have kj: "k \<le> j + 1 - blo" using p2 nlo by (simp add: k_def)
      let ?best = "if k > snd (snd best) then (i + 1 - k, j + 1 - k, k) else best"
      have nb: "block_ok a b alo (i + 1) blo bhi (i + 1 - k, j + 1 - k, k)"
        unfolding block_ok_def
      proof (clarsimp, intro conjI allI impI)
        show "alo \<le> Suc i - k" using ki i by linarith
        show "Suc i - k + k \<le> Suc i" using ki by linarith
        show "blo \<le> Suc j - k" using kj nlo by linarith
        show "Suc j - k + k \<le> bhi" using kj False by linarith
        fix t assume t: "t < k"
        then have "k - 1 - t < k" by simp
        from agree[OF this] have "a ! (i - (k - 1 - t)) = b ! (j - (k - 1 - t))" .
        moreover have "i - (k - 1 - t) = Suc i - k + t" using t ki by linarith
        moreover have "j - (k - 1 - t) = Suc j - k + t" using t kj by linarith
        ultimately show "a ! (Suc i - k + t) = b ! (Suc j - k + t)" by metis
      qed
      have b': "block_ok a b alo (i + 1) blo bhi ?best"
        using nb Cons.prems(2) by simp
      have n': "runs_ok a b alo blo bhi (i + 1) (new(j := k))"
        unfolding runs_ok_def
      proof (intro allI)
        fix x
        show "(new(j := k)) x \<le> i + 1 - alo \<and> (new(j := k)) x \<le> x + 1 - blo
              \<and> (0 < (new(j := k)) x \<longrightarrow> x < bhi)
              \<and> (\<forall>t < (new(j := k)) x. a ! (i + 1 - 1 - t) = b ! (x - t))"
        proof (cases "x = j")
          case True
          with ki kj False agree show ?thesis by auto
        next
          case ne: False
          with Cons.prems(3) show ?thesis unfolding runs_ok_def by auto
        qed
      qed
      have step: "dp_row i blo bhi (j # js) j2len (best, new)
          = dp_row i blo bhi js j2len (?best, new(j := k))"
        unfolding k_def p_def using nlo False by (simp add: Let_def)
      have r: "dp_row i blo bhi js j2len (?best, new(j := k)) = (best', new')"
        using Cons.prems(4) unfolding step .
      have "\<forall>j \<in> set js. b ! j = a ! i" using Cons.prems(1) by simp
      from Cons.IH[OF this b' n' r] show ?thesis .
    qed
  qed
qed

lemma runs_ok_zero: "runs_ok a b alo blo bhi i (\<lambda>j. 0)"
  by (simp add: runs_ok_def)

lemma block_ok_wider: "block_ok a b alo hi blo bhi m \<Longrightarrow> hi \<le> hi' \<Longrightarrow> block_ok a b alo hi' blo bhi m"
  by (auto simp: block_ok_def)

lemma dp_rows_ok:
  assumes "runs_ok a b alo blo bhi i j2len" and "alo \<le> i" and "block_ok a b alo i blo bhi best"
    and "i \<le> ahi"
  shows "block_ok a b alo ahi blo bhi (dp_rows a b blo bhi [i ..< ahi] (best, j2len))"
  using assms
proof (induction "ahi - i" arbitrary: i best j2len)
  case 0
  then show ?case by simp
next
  case (Suc d)
  then have lt: "i < ahi" by simp
  obtain best' new' where r:
    "dp_row i blo bhi (b2j b (a ! i)) j2len (best, \<lambda>j. 0) = (best', new')"
    by (cases "dp_row i blo bhi (b2j b (a ! i)) j2len (best, \<lambda>j. 0)")
  have js: "\<forall>j \<in> set (b2j b (a ! i)). b ! j = a ! i" using b2j_member by blast
  have b0: "block_ok a b alo (i + 1) blo bhi best"
    using Suc.prems(3) by (rule block_ok_wider) simp
  from dp_row_ok[OF Suc.prems(1,2) js b0 runs_ok_zero r]
  have b: "block_ok a b alo (i + 1) blo bhi best'" and n: "runs_ok a b alo blo bhi (i + 1) new'"
    by auto
  have "block_ok a b alo ahi blo bhi (dp_rows a b blo bhi [i + 1 ..< ahi] (best', new'))"
    using Suc.hyps(2) Suc.prems(2) lt b n by (intro Suc.hyps(1)) auto
  with lt r show ?case by (simp add: upt_conv_Cons)
qed

lemma extend_left_ok:
  "block_ok a b alo ahi blo bhi m \<Longrightarrow> block_ok a b alo ahi blo bhi (extend_left a b alo blo m)"
proof (induction a b alo blo m rule: extend_left.induct)
  case (1 a b alo blo besti bestj bestsize)
  show ?case
  proof (cases "besti > alo \<and> bestj > blo \<and> a ! (besti - 1) = b ! (bestj - 1)")
    case True
    have "block_ok a b alo ahi blo bhi (besti - 1, bestj - 1, bestsize + 1)"
      unfolding block_ok_def
    proof (clarsimp, intro conjI allI impI)
      from 1(2) True show "alo \<le> besti - Suc 0" "Suc (besti - Suc 0 + bestsize) \<le> ahi"
        "blo \<le> bestj - Suc 0" "Suc (bestj - Suc 0 + bestsize) \<le> bhi"
        by (auto simp: block_ok_def)
      fix t assume t: "t < Suc bestsize"
      show "a ! (besti - Suc 0 + t) = b ! (bestj - Suc 0 + t)"
      proof (cases t)
        case 0
        with True show ?thesis by simp
      next
        case (Suc u)
        with t 1(2) have "a ! (besti + u) = b ! (bestj + u)" by (auto simp: block_ok_def)
        with Suc True show ?thesis by simp
      qed
    qed
    from 1(1)[OF True this] True show ?thesis
      by (subst extend_left.simps) simp
  next
    case False
    with 1(2) show ?thesis by (subst extend_left.simps) auto
  qed
qed

lemma extend_right_ok:
  "block_ok a b alo ahi blo bhi m \<Longrightarrow> block_ok a b alo ahi blo bhi (extend_right a b ahi bhi m)"
proof (induction a b ahi bhi m rule: extend_right.induct)
  case (1 a b ahi bhi besti bestj bestsize)
  show ?case
  proof (cases "besti + bestsize < ahi \<and> bestj + bestsize < bhi
         \<and> a ! (besti + bestsize) = b ! (bestj + bestsize)")
    case True
    have "block_ok a b alo ahi blo bhi (besti, bestj, bestsize + 1)"
      using 1(2) True by (auto simp: block_ok_def less_Suc_eq)
    from 1(1)[OF True this] True show ?thesis
      by (subst extend_right.simps) simp
  next
    case False
    with 1(2) show ?thesis by (subst extend_right.simps) auto
  qed
qed

lemma find_longest_match_ok:
  assumes "alo \<le> ahi" and "blo \<le> bhi"
  shows "block_ok a b alo ahi blo bhi (find_longest_match a b alo ahi blo bhi)"
proof -
  have "block_ok a b alo alo blo bhi (alo, blo, 0)" using assms by (simp add: block_ok_def)
  then have "block_ok a b alo ahi blo bhi (dp_rows a b blo bhi [alo ..< ahi] ((alo, blo, 0), \<lambda>j. 0))"
    using assms by (intro dp_rows_ok runs_ok_zero) auto
  then show ?thesis
    unfolding find_longest_match_def by (intro extend_right_ok extend_left_ok)
qed

definition slice :: "'a list \<Rightarrow> nat \<Rightarrow> nat \<Rightarrow> 'a list" where
  \<comment> \<open>\<open>xs[lo:hi]\<close> for \<open>lo \<le> hi\<close>\<close>
  "slice xs lo hi = take (hi - lo) (drop lo xs)"

lemma slice_split:
  "lo \<le> mid \<Longrightarrow> mid \<le> hi \<Longrightarrow> slice xs lo hi = slice xs lo mid @ slice xs mid hi"
proof -
  assume a: "lo \<le> mid" "mid \<le> hi"
  then have "hi - lo = (mid - lo) + (hi - mid)" by simp
  then have "take (hi - lo) (drop lo xs)
      = take (mid - lo) (drop lo xs) @ take (hi - mid) (drop (mid - lo) (drop lo xs))"
    by (simp only: take_add)
  with a show ?thesis by (simp add: slice_def)
qed

lemma slice_all: "slice xs 0 (length xs) = xs"
  by (simp add: slice_def)

lemma slice_block:
  assumes "i + k \<le> length a" and "j + k \<le> length b" and "\<forall>t < k. a ! (i + t) = b ! (j + t)"
  shows "slice a i (i + k) = slice b j (j + k)"
  using assms by (auto simp: slice_def list_eq_iff_nth_eq)

lemma length_slice: "hi \<le> length xs \<Longrightarrow> length (slice xs lo hi) = hi - lo"
  by (auto simp: slice_def)

lemma inter_three:
  "size (A1 \<inter># B1) + size M + size (A2 \<inter># B2) \<le> size ((A1 + M + A2) \<inter># (B1 + M + B2))"
proof -
  let ?L = "(A1 \<inter># B1) + M + (A2 \<inter># B2)"
  have "?L \<subseteq># A1 + M + A2"
    by (intro mset_subset_eq_mono_add) auto
  moreover have "?L \<subseteq># B1 + M + B2"
    by (intro mset_subset_eq_mono_add) auto
  ultimately have "?L \<subseteq># (A1 + M + A2) \<inter># (B1 + M + B2)" by simp
  from size_mset_mono[OF this] show ?thesis by simp
qed

lemma matched_le_common:
  "alo \<le> ahi \<Longrightarrow> ahi \<le> length a \<Longrightarrow> blo \<le> bhi \<Longrightarrow> bhi \<le> length b
   \<Longrightarrow> matched a b alo ahi blo bhi
       \<le> size (mset (slice a alo ahi) \<inter># mset (slice b blo bhi))"
proof (induction a b alo ahi blo bhi rule: matched.induct)
  case (1 a b alo ahi blo bhi)
  obtain i j k where f: "find_longest_match a b alo ahi blo bhi = (i, j, k)"
    by (cases "find_longest_match a b alo ahi blo bhi")
  show ?case
  proof (cases "k = 0")
    case True
    with f show ?thesis by (subst matched.simps) simp
  next
    case knz: False
    from find_longest_match_ok[OF "1.prems"(1) "1.prems"(3), of a b] f
    have bnd: "alo \<le> i" "i + k \<le> ahi" "blo \<le> j" "j + k \<le> bhi"
      and agree: "\<forall>t < k. a ! (i + t) = b ! (j + t)"
      by (auto simp: block_ok_def)
    let ?A1 = "mset (slice a alo i)" and ?A2 = "mset (slice a (i + k) ahi)"
    let ?B1 = "mset (slice b blo j)" and ?B2 = "mset (slice b (j + k) bhi)"
    let ?M = "mset (slice a i (i + k))"
    let ?L = "if alo < i \<and> blo < j then matched a b alo i blo j else 0"
    let ?R = "if i + k < ahi \<and> j + k < bhi then matched a b (i + k) ahi (j + k) bhi else 0"
    have l: "?L \<le> size (?A1 \<inter># ?B1)"
    proof (cases "alo < i \<and> blo < j")
      case True
      have "matched a b alo i blo j \<le> size (?A1 \<inter># ?B1)"
        using bnd "1.prems" by (intro "1.IH"(1)[OF f[symmetric] refl knz True]) auto
      with True show ?thesis by simp
    next
      case False
      then show ?thesis by auto
    qed
    have r: "?R \<le> size (?A2 \<inter># ?B2)"
    proof (cases "i + k < ahi \<and> j + k < bhi")
      case True
      have "matched a b (i + k) ahi (j + k) bhi \<le> size (?A2 \<inter># ?B2)"
        using bnd "1.prems" by (intro "1.IH"(2)[OF f[symmetric] refl knz True]) auto
      with True show ?thesis by simp
    next
      case False
      then show ?thesis by auto
    qed
    have m: "matched a b alo ahi blo bhi = k + ?L + ?R"
      using f knz by (subst matched.simps) simp
    have sa: "slice a alo ahi = slice a alo i @ slice a i (i + k) @ slice a (i + k) ahi"
      using bnd slice_split[of alo i ahi a] slice_split[of i "i + k" ahi a] by simp
    have sb: "slice b blo bhi = slice b blo j @ slice b j (j + k) @ slice b (j + k) bhi"
      using bnd slice_split[of blo j bhi b] slice_split[of j "j + k" bhi b] by simp
    have blk: "slice a i (i + k) = slice b j (j + k)"
      using bnd "1.prems" agree by (intro slice_block) auto
    have sz: "size ?M = k"
      using bnd "1.prems" length_slice[of "i + k" a i] by simp
    have "mset (slice a alo ahi) = ?A1 + ?M + ?A2" unfolding sa by simp
    moreover have "mset (slice b blo bhi) = ?B1 + ?M + ?B2" unfolding sb blk by simp
    ultimately have "size (?A1 \<inter># ?B1) + size ?M + size (?A2 \<inter># ?B2)
        \<le> size (mset (slice a alo ahi) \<inter># mset (slice b blo bhi))"
      using inter_three[of ?A1 ?B1 ?M ?A2 ?B2] by simp
    with l r m sz show ?thesis by linarith
  qed
qed

lemma quick_matches_eq:
  "quick_matches a (\<lambda>c. int (count B c) - int (count U c)) = size (mset a \<inter># (B - U))"
proof (induction a arbitrary: U)
  case Nil
  then show ?case by simp
next
  case (Cons elt rest)
  let ?avail = "\<lambda>c. int (count B c) - int (count U c)"
  have upd: "?avail(elt := ?avail elt - 1) = (\<lambda>c. int (count B c) - int (count (add_mset elt U) c))"
    by (auto simp: fun_eq_iff)
  have rest: "quick_matches rest (?avail(elt := ?avail elt - 1))
      = size (mset rest \<inter># (B - add_mset elt U))"
    unfolding upd by (rule Cons.IH)
  have pos: "(?avail elt > 0) = (elt \<in># B - U)"
    by (simp add: count_greater_zero_iff[symmetric] del: count_greater_zero_iff)
  show ?case
  proof (cases "elt \<in># B - U")
    case True
    then have "add_mset elt (mset rest) \<inter># (B - U)
        = add_mset elt (mset rest \<inter># (B - U - {#elt#}))"
      by (rule inter_add_left2)
    with True pos rest show ?thesis by simp
  next
    case False
    then have "add_mset elt (mset rest) \<inter># (B - U) = mset rest \<inter># (B - U)"
      by (rule inter_add_left1)
    moreover from False have "B - add_mset elt U = B - U"
      by (metis diff_single_trivial diff_diff_add_mset add_mset_add_single)
    ultimately show ?thesis using False pos rest by simp
  qed
qed

lemma quick_matches_common:
  "quick_matches a (\<lambda>c. int (count_list b c)) = size (mset a \<inter># mset b)"
  using quick_matches_eq[of a "mset b" "{#}"] by (simp add: count_mset)

lemma calculate_ratio_mono: "m \<le> m' \<Longrightarrow> calculate_ratio m len \<le> calculate_ratio m' len"
  by (simp add: calculate_ratio_def divide_right_mono)

lemma ratio_le_quick_ratio: "ratio a b \<le> quick_ratio a b"
proof -
  have "matched a b 0 (length a) 0 (length b) \<le> size (mset a \<inter># mset b)"
    using matched_le_common[of 0 "length a" a 0 "length b" b] by (simp add: slice_all)
  then show ?thesis
    unfolding ratio_def quick_ratio_def quick_matches_common by (rule calculate_ratio_mono)
qed

lemma quick_ratio_le_real_quick_ratio: "quick_ratio a b \<le> real_quick_ratio a b"
proof -
  have "size (mset a \<inter># mset b) \<le> size (mset a)"
    by (rule size_mset_mono) simp
  moreover have "size (mset a \<inter># mset b) \<le> size (mset b)"
    by (rule size_mset_mono) simp
  ultimately have "size (mset a \<inter># mset b) \<le> min (length a) (length b)" by simp
  then show ?thesis
    unfolding real_quick_ratio_def quick_ratio_def quick_matches_common
    by (rule calculate_ratio_mono)
qed

lemma passes_cutoff_ratio: "passes_cutoff cutoff word x = (ratio x word \<ge> cutoff)"
  using ratio_le_quick_ratio[of x word] quick_ratio_le_real_quick_ratio[of x word]
  by (auto simp: passes_cutoff_def)

end
